theory Spec2Isabelle
  imports Complex_Main
begin

section \<open>Python strings\<close>

text \<open>
  A Python \<open>str\<close> is a sequence of Unicode code points, and \<open>len\<close> counts code
  points. A character is modelled by its code point, a string by the list of them, so
  that \<open>length\<close> is Python's \<open>len\<close> also on Cyrillic text.
\<close>

type_synonym uchar = nat
type_synonym ustring = "uchar list"

text \<open>
  The characters for which \<open>str.isspace\<close> holds (the ones \<open>str.strip()\<close> and
  \<open>str.split()\<close> treat as whitespace): U+0009..U+000D, U+001C..U+0020, U+0085,
  U+00A0, U+1680, U+2000..U+200A, U+2028, U+2029, U+202F, U+205F, U+3000.
\<close>

definition py_isspace :: "uchar \<Rightarrow> bool" where
  "py_isspace c =
     ((9 \<le> c \<and> c \<le> 13) \<or> (28 \<le> c \<and> c \<le> 32) \<or> c = 133 \<or> c = 160 \<or> c = 5760
      \<or> (8192 \<le> c \<and> c \<le> 8202) \<or> c = 8232 \<or> c = 8233 \<or> c = 8239 \<or> c = 8287
      \<or> c = 12288)"

text \<open>\<open>s.strip()\<close>: leading and trailing whitespace removed.\<close>

definition py_strip :: "ustring \<Rightarrow> ustring" where
  "py_strip s = rev (dropWhile py_isspace (rev (dropWhile py_isspace s)))"

text \<open>
  The maximal runs of characters that satisfy \<open>P\<close>, left to right; \<open>cur\<close> is the run
  being read. \<open>s.split()\<close> is the runs of non-whitespace characters, and
  \<open>re.findall(r'\b\w+\b', s)\<close> the runs of word characters: a greedy \<open>\w+\<close> that
  starts at a word boundary takes a whole run, and the boundary after it always holds.
\<close>

fun runs_from :: "('a \<Rightarrow> bool) \<Rightarrow> 'a list \<Rightarrow> 'a list \<Rightarrow> 'a list list" where
  "runs_from P cur [] = (if cur = [] then [] else [cur])"
| "runs_from P cur (c # cs) =
     (if P c then runs_from P (cur @ [c]) cs
      else if cur = [] then runs_from P [] cs
      else cur # runs_from P [] cs)"

definition runs :: "('a \<Rightarrow> bool) \<Rightarrow> 'a list \<Rightarrow> 'a list list" where
  "runs P s = runs_from P [] s"

definition py_split :: "ustring \<Rightarrow> ustring list" where
  "py_split s = runs (\<lambda>c. \<not> py_isspace c) s"

text \<open>\<open>s[a:b]\<close> for indices \<open>0 \<le> a\<close>, \<open>0 \<le> b\<close> (empty when \<open>b \<le> a\<close>).\<close>

definition slice :: "'a list \<Rightarrow> nat \<Rightarrow> nat \<Rightarrow> 'a list" where
  "slice s a b = take (b - a) (drop a s)"

definition startswith :: "'a list \<Rightarrow> 'a list \<Rightarrow> bool" where
  "startswith s p = (take (length p) s = p)"

text \<open>\<open>sub in s\<close> on strings: \<open>sub\<close> occurs in \<open>s\<close> at some position.\<close>

fun py_in :: "'a list \<Rightarrow> 'a list \<Rightarrow> bool" where
  "py_in sub [] = (sub = [])"
| "py_in sub (c # cs) = (startswith (c # cs) sub \<or> py_in sub cs)"

text \<open>
  \<open>s.replace(old, new)\<close>: the occurrences of \<open>old\<close> are found left to right without
  overlap and each is replaced; with an empty \<open>old\<close>, \<open>new\<close> is put before every
  character and at the end. \<open>replace_ne\<close> is the scan for the non-empty pattern
  \<open>o # os\<close>.
\<close>

function replace_ne :: "'a \<Rightarrow> 'a list \<Rightarrow> 'a list \<Rightarrow> 'a list \<Rightarrow> 'a list" where
  "replace_ne o1 os new [] = []"
| "replace_ne o1 os new (c # cs) =
     (if startswith (c # cs) (o1 # os) then new @ replace_ne o1 os new (drop (length os) cs)
      else c # replace_ne o1 os new cs)"
  by pat_completeness auto
termination
  by (relation "measure (\<lambda>(o1, os, new, s). length s)") auto

fun replace_empty :: "'a list \<Rightarrow> 'a list \<Rightarrow> 'a list" where
  "replace_empty new [] = new"
| "replace_empty new (c # cs) = new @ c # replace_empty new cs"

definition py_replace :: "'a list \<Rightarrow> 'a list \<Rightarrow> 'a list \<Rightarrow> 'a list" where
  "py_replace s old new =
     (case old of [] \<Rightarrow> replace_empty new s | o1 # os \<Rightarrow> replace_ne o1 os new s)"

text \<open>\<open>s.replace(old, new, 1)\<close>: only the first occurrence is replaced.\<close>

fun replace_first_ne :: "'a list \<Rightarrow> 'a list \<Rightarrow> 'a list \<Rightarrow> 'a list" where
  "replace_first_ne old new [] = []"
| "replace_first_ne old new (c # cs) =
     (if startswith (c # cs) old then new @ drop (length old) (c # cs)
      else c # replace_first_ne old new cs)"

definition py_replace1 :: "'a list \<Rightarrow> 'a list \<Rightarrow> 'a list \<Rightarrow> 'a list" where
  "py_replace1 s old new = (if old = [] then new @ s else replace_first_ne old new s)"

section \<open>OCR engine\<close>

text \<open>
  The image library and the text extraction engine are outside the repository. They
  are parameters of the model: \<open>imread\<close> returns \<open>None\<close> for a file it cannot load
  (as \<open>cv2.imread\<close> does), every other call either returns an image or raises
  (\<open>Inl\<close> the exception). \<open>image_to_string\<close> is the engine behind
  \<open>pytesseract.image_to_string\<close>, \<open>None\<close> when it raises.
\<close>

record ('img, 'e) cv2 =
  imread :: "ustring \<Rightarrow> 'img option"
  cvtColor_gray :: "'img \<Rightarrow> 'e + 'img"
  clahe_apply :: "'img \<Rightarrow> 'e + 'img"
  threshold_otsu :: "'img \<Rightarrow> 'e + 'img"
  adaptiveThreshold :: "'img \<Rightarrow> 'e + 'img"
  morphologyEx_close :: "'img \<Rightarrow> 'e + 'img"
  fastNlMeansDenoising :: "'img \<Rightarrow> 'e + 'img"
  filter2D_sharp :: "'img \<Rightarrow> 'e + 'img"

text \<open>
  \<open>_preprocess_image\<close>: an empty list for an image that does not load; otherwise the
  grayscale image and the six transforms of it, in this order. An exception of a
  transform is not caught here.
\<close>

definition preprocess_image :: "('img, 'e) cv2 \<Rightarrow> ustring \<Rightarrow> 'e + 'img list" where
  "preprocess_image cv image_path =
     (case imread cv image_path of
        None \<Rightarrow> Inr []
      | Some img \<Rightarrow>
        (case cvtColor_gray cv img of Inl e \<Rightarrow> Inl e | Inr gray \<Rightarrow>
        (case clahe_apply cv gray of Inl e \<Rightarrow> Inl e | Inr enhanced \<Rightarrow>
        (case threshold_otsu cv gray of Inl e \<Rightarrow> Inl e | Inr otsu \<Rightarrow>
        (case adaptiveThreshold cv gray of Inl e \<Rightarrow> Inl e | Inr adaptive \<Rightarrow>
        (case morphologyEx_close cv gray of Inl e \<Rightarrow> Inl e | Inr morph \<Rightarrow>
        (case fastNlMeansDenoising cv gray of Inl e \<Rightarrow> Inl e | Inr denoised \<Rightarrow>
        (case filter2D_sharp cv gray of Inl e \<Rightarrow> Inl e | Inr sharpened \<Rightarrow>
           Inr [gray, enhanced, otsu, adaptive, morph, denoised, sharpened]))))))))"

text \<open>\<open>_recognize_with_tesseract\<close>: the empty text when the engine raises.\<close>

definition recognize_with_tesseract :: "('img \<Rightarrow> ustring option) \<Rightarrow> 'img \<Rightarrow> ustring" where
  "recognize_with_tesseract image_to_string img =
     (case image_to_string img of None \<Rightarrow> [] | Some text \<Rightarrow> text)"

text \<open>
  The loop of \<open>recognize_text\<close> over the variants: \<open>best_text\<close> starts empty and is
  replaced by a text that is strictly longer.
\<close>

fun best_text_loop :: "('img \<Rightarrow> ustring option) \<Rightarrow> ustring \<Rightarrow> 'img list \<Rightarrow> ustring" where
  "best_text_loop image_to_string best_text [] = best_text"
| "best_text_loop image_to_string best_text (processed_img # images) =
     (let text = recognize_with_tesseract image_to_string processed_img
      in best_text_loop image_to_string
           (if length text > length best_text then text else best_text) images)"

record statistics =
  characters :: nat
  words :: nat

record ocr_success =
  full_text :: ustring
  stats :: statistics

datatype 'e ocr_error = File_not_found | Raised 'e

text \<open>
  \<open>recognize_text\<close>; \<open>exists\<close> tells whether the path names an existing file. The
  result is \<open>Inl\<close> for \<open>{'success': False, ...}\<close> and \<open>Inr\<close> for
  \<open>{'success': True, ...}\<close>.
\<close>

definition recognize_text ::
  "('img, 'e) cv2 \<Rightarrow> ('img \<Rightarrow> ustring option) \<Rightarrow> (ustring \<Rightarrow> bool) \<Rightarrow> ustring
     \<Rightarrow> 'e ocr_error + ocr_success" where
  "recognize_text cv image_to_string exists image_path =
     (if \<not> exists image_path then Inl File_not_found
      else case preprocess_image cv image_path of
        Inl e \<Rightarrow> Inl (Raised e)
      | Inr images \<Rightarrow>
          (let best_text = best_text_loop image_to_string [] images
           in Inr \<lparr>full_text = py_strip best_text,
                   stats = \<lparr>characters = length (py_strip best_text),
                             words = length (py_split (py_strip best_text))\<rparr>\<rparr>))"

section \<open>Error checker\<close>

subsection \<open>Character tables and entries\<close>

text \<open>
  The Unicode tables of the Python runtime are parameters of the model:
  \<open>isalpha\<close> is \<open>str.isalpha\<close> on one character, \<open>isword\<close> the class \<open>\w\<close> of
  \<open>re\<close>, and \<open>lower\<close> the lower-case map of one character; \<open>str.lower()\<close> is
  this map applied to every character. \<open>iscased\<close> tells whether a character has
  another case, and \<open>ignorecase_fixes\<close> lists, for a lower-case character, the
  other lower-case characters that \<open>re.IGNORECASE\<close> takes for the same letter
  (the table of extra cases of the \<open>re\<close> module).
\<close>

record unicode =
  isalpha :: "uchar \<Rightarrow> bool"
  isword :: "uchar \<Rightarrow> bool"
  lower :: "uchar \<Rightarrow> uchar"
  iscased :: "uchar \<Rightarrow> bool"
  ignorecase_fixes :: "uchar \<Rightarrow> uchar list"

text \<open>
  The tables on Basic Latin and on U+0400..U+045F, the Cyrillic letters of Russian
  and their neighbours; the closed examples below use these characters only. Other
  characters are outside this table (no letter, no case). The extra cases of the
  characters of this range are U+0131 for i, U+017F for s, and U+1C80..U+1C86 for
  six Cyrillic letters.
\<close>

definition isalpha_table :: "uchar \<Rightarrow> bool" where
  "isalpha_table c = ((65 \<le> c \<and> c \<le> 90) \<or> (97 \<le> c \<and> c \<le> 122) \<or> (1024 \<le> c \<and> c \<le> 1119))"

definition isword_table :: "uchar \<Rightarrow> bool" where
  "isword_table c = (isalpha_table c \<or> (48 \<le> c \<and> c \<le> 57) \<or> c = 95)"

definition lower_table :: "uchar \<Rightarrow> uchar" where
  "lower_table c =
     (if 65 \<le> c \<and> c \<le> 90 then c + 32
      else if 1040 \<le> c \<and> c \<le> 1071 then c + 32
      else if 1024 \<le> c \<and> c \<le> 1039 then c + 80
      else c)"

definition iscased_table :: "uchar \<Rightarrow> bool" where
  "iscased_table c = ((65 \<le> c \<and> c \<le> 90) \<or> (97 \<le> c \<and> c \<le> 122) \<or> (1024 \<le> c \<and> c \<le> 1119))"

definition ignorecase_fixes_table :: "uchar \<Rightarrow> uchar list" where
  "ignorecase_fixes_table c =
     (if c = 105 then [305]
      else if c = 115 then [383]
      else if c = 1074 then [7296]
      else if c = 1076 then [7297]
      else if c = 1086 then [7298]
      else if c = 1089 then [7299]
      else if c = 1090 then [7300, 7301]
      else if c = 1098 then [7302]
      else [])"

definition tables :: unicode where
  "tables = \<lparr>isalpha = isalpha_table, isword = isword_table, lower = lower_table,
             iscased = iscased_table, ignorecase_fixes = ignorecase_fixes_table\<rparr>"

text \<open>
  The character class of the two patterns of the checker, the Russian letters:
  U+0430..U+044F, U+0451, U+0410..U+042F and U+0401.
\<close>

definition is_ru_letter :: "uchar \<Rightarrow> bool" where
  "is_ru_letter c = ((1072 \<le> c \<and> c \<le> 1103) \<or> c = 1105 \<or> (1040 \<le> c \<and> c \<le> 1071) \<or> c = 1025)"

text \<open>
  An entry of the error list. The keys \<open>confidence\<close> and \<open>candidates\<close> are present
  in the entries of the grammar and of the spelling pass only. The confidence is the
  float literal \<open>0.8\<close>, which is only ever compared with the same literal; it is
  modelled by the rational \<open>8/10\<close>.
\<close>

record error_entry =
  etype :: string
  original :: ustring
  suggestion :: ustring
  etext :: ustring
  description :: ustring
  confidence :: "rat option"
  candidates :: "ustring list option"

text \<open>The arrow U+2192 between spaces, and the double quote, of the descriptions.\<close>

definition arrow :: ustring where
  "arrow = [32, 8594, 32]"

definition quoted :: "ustring \<Rightarrow> ustring" where
  "quoted s = [34] @ s @ [34]"

subsection \<open>Hyphenation\<close>

text \<open>
  \<open>re.finditer\<close> of the pattern "Russian letter, hyphen, line feed, Russian letter":
  the start positions of the matches, left to right without overlap; \<open>i\<close> is the
  position of the first character of the rest.
\<close>

fun hyphen_finditer :: "nat \<Rightarrow> ustring \<Rightarrow> nat list" where
  "hyphen_finditer i (a # b # c # d # rest) =
     (if is_ru_letter a \<and> b = 45 \<and> c = 10 \<and> is_ru_letter d
      then i # hyphen_finditer (i + 4) rest
      else hyphen_finditer (i + 1) (b # c # d # rest))"
| "hyphen_finditer i rest = []"

text \<open>\<open>while word_start > 0 and text[word_start - 1].isalpha(): word_start -= 1\<close>\<close>

fun word_start_loop :: "(uchar \<Rightarrow> bool) \<Rightarrow> ustring \<Rightarrow> nat \<Rightarrow> nat" where
  "word_start_loop alpha text 0 = 0"
| "word_start_loop alpha text (Suc k) =
     (if alpha (text ! k) then word_start_loop alpha text k else Suc k)"

text \<open>\<open>while word_end < len(text) and text[word_end].isalpha(): word_end += 1\<close>\<close>

function word_end_loop :: "(uchar \<Rightarrow> bool) \<Rightarrow> ustring \<Rightarrow> nat \<Rightarrow> nat" where
  "word_end_loop alpha text word_end =
     (if word_end < length text \<and> alpha (text ! word_end)
      then word_end_loop alpha text (Suc word_end) else word_end)"
  by pat_completeness auto
termination
  by (relation "measure (\<lambda>(alpha, text, word_end). length text - word_end)") auto

definition hyphenation_description :: "ustring \<Rightarrow> ustring \<Rightarrow> ustring" where
  "hyphenation_description full_original full_suggestion =
     [1055, 1077, 1088, 1077, 1085, 1086, 1089, 32, 1089, 1083, 1086, 1074, 1072, 58, 32]
     @ quoted full_original @ arrow @ quoted full_suggestion"

text \<open>The body of the loop over the matches, for the match that starts at \<open>m_start\<close>.\<close>

definition hyphenation_entry :: "unicode \<Rightarrow> ustring \<Rightarrow> nat \<Rightarrow> error_entry" where
  "hyphenation_entry U text m_start =
     (let m_end = m_start + 4;
          m_original = slice text m_start m_end;
          part1 = text ! m_start;
          part2 = text ! (m_start + 3);
          m_suggestion = [part1, part2];
          word_start = word_start_loop (isalpha U) text m_start;
          word_end = word_end_loop (isalpha U) text m_end;
          full_original = slice text word_start word_end;
          full_suggestion = slice text word_start m_start @ m_suggestion @ slice text m_end word_end
      in \<lparr>etype = ''hyphenation_error'', original = full_original,
           suggestion = full_suggestion, etext = m_original,
           description = hyphenation_description full_original full_suggestion,
           confidence = None, candidates = None\<rparr>)"

definition fix_word_hyphenation :: "unicode \<Rightarrow> ustring \<Rightarrow> error_entry list" where
  "fix_word_hyphenation U text = map (hyphenation_entry U text) (hyphen_finditer 0 text)"

subsection \<open>Confusable characters\<close>

text \<open>The dictionary \<open>replacements\<close>, in insertion order: 0, 1, 3 and Latin l.\<close>

definition replacements :: "(uchar \<times> uchar) list" where
  "replacements = [(48, 1054), (49, 1030), (51, 1047), (108, 1110)]"

text \<open>
  The inner loop: for every pair whose bad character is in the word as it was found,
  the bad character is replaced in the word corrected so far.
\<close>

definition correct_word :: "ustring \<Rightarrow> ustring" where
  "correct_word word =
     fold (\<lambda>(bad_char, good_char) corrected_word.
             if bad_char \<in> set word then py_replace corrected_word [bad_char] [good_char]
             else corrected_word)
          replacements word"

definition ocr_entry :: "ustring \<Rightarrow> error_entry" where
  "ocr_entry word =
     \<lparr>etype = ''ocr_error'', original = word, suggestion = correct_word word, etext = word,
      description =
        [1054, 1096, 1080, 1073, 1082, 1072, 32, 79, 67, 82, 58, 32] @ word @ arrow
        @ correct_word word,
      confidence = None, candidates = None\<rparr>"

definition check_ocr_errors :: "unicode \<Rightarrow> ustring \<Rightarrow> error_entry list" where
  "check_ocr_errors U text =
     map ocr_entry (filter (\<lambda>word. correct_word word \<noteq> word) (runs (isword U) text))"

subsection \<open>Context phrases\<close>

text \<open>
  A character \<open>p\<close> of an escaped pattern against a character \<open>ch\<close> of the text
  under \<open>re.IGNORECASE\<close>: a character without case matches itself only; for a
  character with case, the lower case of \<open>ch\<close> is looked up among the lower case
  of \<open>p\<close> and its extra cases.
\<close>

definition ignorecase_match :: "unicode \<Rightarrow> uchar \<Rightarrow> uchar \<Rightarrow> bool" where
  "ignorecase_match U p ch =
     (if iscased U p then lower U ch \<in> set (lower U p # ignorecase_fixes U (lower U p))
      else ch = p)"

definition ignorecase_prefix :: "unicode \<Rightarrow> ustring \<Rightarrow> ustring \<Rightarrow> bool" where
  "ignorecase_prefix U phrase s =
     (length phrase \<le> length s
      \<and> list_all2 (ignorecase_match U) phrase (take (length phrase) s))"

text \<open>
  \<open>pattern.finditer(text)\<close> for the escaped phrase \<open>p1 # ps\<close> under
  \<open>re.IGNORECASE\<close>: the matched substrings, left to right without overlap.
\<close>

function phrase_finditer :: "unicode \<Rightarrow> uchar \<Rightarrow> ustring \<Rightarrow> ustring \<Rightarrow> ustring list" where
  "phrase_finditer U p1 ps [] = []"
| "phrase_finditer U p1 ps (c # cs) =
     (if ignorecase_prefix U (p1 # ps) (c # cs)
      then take (length (p1 # ps)) (c # cs) # phrase_finditer U p1 ps (drop (length ps) cs)
      else phrase_finditer U p1 ps cs)"
  by pat_completeness auto
termination
  by (relation "measure (\<lambda>(U, p1, ps, s). length s)") auto

text \<open>An empty pattern matches the empty string at every position.\<close>

definition finditer_ignorecase :: "unicode \<Rightarrow> ustring \<Rightarrow> ustring \<Rightarrow> ustring list" where
  "finditer_ignorecase U phrase text =
     (case phrase of [] \<Rightarrow> replicate (Suc (length text)) []
      | p1 # ps \<Rightarrow> phrase_finditer U p1 ps text)"

definition context_entry :: "ustring \<Rightarrow> ustring \<Rightarrow> error_entry" where
  "context_entry correct_phrase matched =
     \<lparr>etype = ''context_error'', original = matched, suggestion = correct_phrase,
      etext = matched,
      description =
        [1050, 1086, 1085, 1090, 1077, 1082, 1089, 1090, 1085, 1072, 1103, 32,
         1086, 1096, 1080, 1073, 1082, 1072, 58, 32]
        @ quoted matched @ arrow @ quoted correct_phrase,
      confidence = None, candidates = None\<rparr>"

text \<open>The dictionary \<open>self.context_errors\<close>, in insertion order.\<close>

definition context_errors_table :: "(ustring \<times> ustring) list" where
  "context_errors_table =
     [([1074, 32, 1085, 1077, 1089], [1074, 32, 1085, 1077, 1077]),
      ([1085, 1072, 32, 1085, 1077, 1089], [1085, 1072, 32, 1085, 1077, 1077]),
      ([1082, 32, 1085, 1077, 1080], [1082, 32, 1085, 1077, 1081]),
      ([1080, 1079, 32, 1085, 1077, 1089], [1080, 1079, 32, 1085, 1077, 1077]),
      ([1076, 1083, 1103, 32, 1085, 1077, 1089], [1076, 1083, 1103, 32, 1085, 1077, 1077]),
      ([1074, 1077], [1077, 1105]),
      ([1082, 1085, 1072, 1084], [1082, 32, 1085, 1072, 1084])]"

subsection \<open>The checker and its two capabilities\<close>

text \<open>
  A span flagged by the grammar checker, and the two capabilities. A call that
  raises returns \<open>None\<close>. \<open>unknown\<close> returns the unknown words in the order in which
  the loop iterates over the set; \<open>candidates\<close> returns the candidates in the order
  of \<open>list(candidates)\<close>, the empty list when there are none.
\<close>

record lt_match =
  m_category :: string
  m_replacements :: "ustring list"
  m_offset :: nat
  m_length :: nat

type_synonym language_tool = "ustring \<Rightarrow> lt_match list option"

record spell_checker =
  unknown :: "ustring list \<Rightarrow> ustring list option"
  candidates_of :: "ustring \<Rightarrow> ustring list option"

record ErrorChecker =
  language :: string
  has_spellchecker :: bool
  spell :: "spell_checker option"
  has_language_tool :: bool
  lt :: "language_tool option"
  context_errors :: "(ustring \<times> ustring) list"

text \<open>
  \<open>__init__\<close>: \<open>load_spell\<close> and \<open>load_lt\<close> are the import and construction of the
  two engines, \<open>None\<close> when that raises.
\<close>

definition ErrorChecker_init ::
  "(string \<Rightarrow> spell_checker option) \<Rightarrow> (string \<Rightarrow> language_tool option) \<Rightarrow> string
     \<Rightarrow> ErrorChecker" where
  "ErrorChecker_init load_spell load_lt lang =
     \<lparr>language = lang,
      has_spellchecker = (case load_spell lang of None \<Rightarrow> False | Some sp \<Rightarrow> True),
      spell = load_spell lang,
      has_language_tool = (case load_lt ''ru'' of None \<Rightarrow> False | Some l \<Rightarrow> True),
      lt = load_lt ''ru'',
      context_errors = context_errors_table\<rparr>"

definition check_context_errors :: "unicode \<Rightarrow> ErrorChecker \<Rightarrow> ustring \<Rightarrow> error_entry list" where
  "check_context_errors U self text =
     concat (map (\<lambda>(wrong_phrase, correct_phrase).
                    if py_in (map (lower U) wrong_phrase) (map (lower U) text)
                    then map (context_entry correct_phrase)
                           (finditer_ignorecase U wrong_phrase text)
                    else [])
                 (context_errors self))"

subsection \<open>Grammar\<close>

definition grammar_entry :: "ustring \<Rightarrow> ustring \<Rightarrow> error_entry" where
  "grammar_entry original_text sugg =
     \<lparr>etype = ''grammar_error'', original = original_text, suggestion = sugg,
      etext = original_text,
      description =
        [1043, 1088, 1072, 1084, 1084, 1072, 1090, 1080, 1082, 1072, 58, 32]
        @ quoted original_text @ arrow @ quoted sugg,
      confidence = Some (8 / 10), candidates = None\<rparr>"

text \<open>The loop over the flagged spans.\<close>

fun grammar_loop :: "ustring \<Rightarrow> lt_match list \<Rightarrow> error_entry list" where
  "grammar_loop text [] = []"
| "grammar_loop text (m # matches) =
     (if m_category m = ''TYPOS'' \<or> m_category m = ''GRAMMAR'' then
        (case m_replacements m of
           [] \<Rightarrow> grammar_loop text matches
         | sugg # others \<Rightarrow>
             grammar_entry (slice text (m_offset m) (m_offset m + m_length m)) sugg
             # grammar_loop text matches)
      else grammar_loop text matches)"

definition check_grammar :: "ErrorChecker \<Rightarrow> ustring \<Rightarrow> error_entry list" where
  "check_grammar self text =
     (if \<not> has_language_tool self then []
      else case lt self of
        None \<Rightarrow> []
      | Some lt_check \<Rightarrow>
          (case lt_check text of None \<Rightarrow> [] | Some matches \<Rightarrow> grammar_loop text matches))"

subsection \<open>Spelling\<close>

text \<open>
  \<open>re.findall\<close> of a run of Russian letters between two word boundaries. The
  Russian letters are word characters, so a match is a maximal run of word
  characters that consists of Russian letters only.
\<close>

definition findall_ru_words :: "unicode \<Rightarrow> ustring \<Rightarrow> ustring list" where
  "findall_ru_words U text =
     filter (list_all is_ru_letter) (runs (\<lambda>c. isword U c \<or> is_ru_letter c) text)"

definition spelling_entry :: "ustring \<Rightarrow> ustring list \<Rightarrow> ustring \<Rightarrow> error_entry" where
  "spelling_entry word cands sugg =
     \<lparr>etype = ''spelling_error'', original = word, suggestion = sugg, etext = word,
      description =
        [1054, 1088, 1092, 1086, 1075, 1088, 1072, 1092, 1080, 1103, 58, 32] @ word
        @ arrow @ sugg,
      confidence = None, candidates = Some (take 3 cands)\<rparr>"

text \<open>
  The loop over the unknown words. It runs inside the \<open>try\<close>: when \<open>candidates\<close>
  raises, the loop is left and the entries appended so far are returned.
\<close>

fun spelling_loop :: "spell_checker \<Rightarrow> ustring list \<Rightarrow> error_entry list" where
  "spelling_loop sp [] = []"
| "spelling_loop sp (word # misspelled) =
     (case candidates_of sp word of
        None \<Rightarrow> []
      | Some [] \<Rightarrow> spelling_loop sp misspelled
      | Some (sugg # others) \<Rightarrow>
          spelling_entry word (sugg # others) sugg # spelling_loop sp misspelled)"

definition check_spelling :: "unicode \<Rightarrow> ErrorChecker \<Rightarrow> ustring \<Rightarrow> error_entry list" where
  "check_spelling U self text =
     (if \<not> has_spellchecker self then []
      else case spell self of
        None \<Rightarrow> []
      | Some sp \<Rightarrow>
          (case unknown sp (findall_ru_words U text) of
             None \<Rightarrow> []
           | Some misspelled \<Rightarrow> spelling_loop sp misspelled))"

subsection \<open>Counting and the pipeline\<close>

text \<open>\<open>counts[error_type] = counts.get(error_type, 0) + 1\<close> on a dictionary in insertion order.\<close>

fun dict_incr :: "'k \<Rightarrow> ('k \<times> nat) list \<Rightarrow> ('k \<times> nat) list" where
  "dict_incr k [] = [(k, 1)]"
| "dict_incr k ((k', n) # kvs) =
     (if k' = k then (k', n + 1) # kvs else (k', n) # dict_incr k kvs)"

definition count_error_types :: "error_entry list \<Rightarrow> (string \<times> nat) list" where
  "count_error_types errors = fold (\<lambda>error counts. dict_incr (etype error) counts) errors []"

text \<open>
  The four kinds of loop that apply entries to \<open>corrected_text\<close>: every occurrence
  replaced (hyphenation, confusable characters, context), the first occurrence
  replaced when the confidence is above 0.8 (grammar), and the first occurrence
  replaced (spelling).
\<close>

definition apply_replace_all :: "error_entry list \<Rightarrow> ustring \<Rightarrow> ustring" where
  "apply_replace_all errs corrected_text =
     fold (\<lambda>error ct. py_replace ct (original error) (suggestion error)) errs corrected_text"

definition apply_grammar_error :: "error_entry \<Rightarrow> ustring \<Rightarrow> ustring" where
  "apply_grammar_error error ct =
     (if (case confidence error of None \<Rightarrow> 0 | Some conf \<Rightarrow> conf) > 8 / 10
      then py_replace1 ct (original error) (suggestion error) else ct)"

definition apply_replace_first :: "error_entry list \<Rightarrow> ustring \<Rightarrow> ustring" where
  "apply_replace_first errs corrected_text =
     fold (\<lambda>error ct. py_replace1 ct (original error) (suggestion error)) errs corrected_text"

text \<open>
  The five steps of \<open>check_text\<close> on the pair of \<open>errors\<close> and \<open>corrected_text\<close>.
  \<open>text\<close> is the argument of \<open>check_text\<close>.
\<close>

definition hyphenation_step :: "unicode \<Rightarrow> error_entry list \<times> ustring \<Rightarrow> error_entry list \<times> ustring" where
  "hyphenation_step U = (\<lambda>(errors, corrected_text).
     (let hyphen_errors = fix_word_hyphenation U corrected_text
      in (errors @ hyphen_errors, apply_replace_all hyphen_errors corrected_text)))"

definition ocr_step ::
  "unicode \<Rightarrow> ustring \<Rightarrow> bool \<Rightarrow> error_entry list \<times> ustring \<Rightarrow> error_entry list \<times> ustring" where
  "ocr_step U text check_ocr = (\<lambda>(errors, corrected_text).
     (if check_ocr then
        (let ocr_errors = check_ocr_errors U text
         in (errors @ ocr_errors, apply_replace_all ocr_errors corrected_text))
      else (errors, corrected_text)))"

definition context_step ::
  "unicode \<Rightarrow> ErrorChecker \<Rightarrow> error_entry list \<times> ustring \<Rightarrow> error_entry list \<times> ustring" where
  "context_step U self = (\<lambda>(errors, corrected_text).
     (let context_errs = check_context_errors U self corrected_text
      in (errors @ context_errs, apply_replace_all context_errs corrected_text)))"

definition grammar_step ::
  "ErrorChecker \<Rightarrow> bool \<Rightarrow> error_entry list \<times> ustring \<Rightarrow> error_entry list \<times> ustring" where
  "grammar_step self check_gram = (\<lambda>(errors, corrected_text).
     (if check_gram \<and> has_language_tool self then
        (let grammar_errors = check_grammar self corrected_text
         in (errors @ grammar_errors, fold apply_grammar_error grammar_errors corrected_text))
      else (errors, corrected_text)))"

definition spelling_step ::
  "unicode \<Rightarrow> ErrorChecker \<Rightarrow> bool \<Rightarrow> error_entry list \<times> ustring \<Rightarrow> error_entry list \<times> ustring" where
  "spelling_step U self check_gram = (\<lambda>(errors, corrected_text).
     (if check_gram \<and> has_spellchecker self then
        (let spell_errors = check_spelling U self corrected_text
         in (errors @ spell_errors, apply_replace_first spell_errors corrected_text))
      else (errors, corrected_text)))"

record check_result =
  success :: bool
  original_text :: ustring
  corrected_text :: ustring
  errors :: "error_entry list"
  error_count :: nat
  error_types :: "(string \<times> nat) list"

definition make_result :: "ustring \<Rightarrow> error_entry list \<times> ustring \<Rightarrow> check_result" where
  "make_result text = (\<lambda>(errs, ct).
     \<lparr>success = True, original_text = text, corrected_text = ct, errors = errs,
      error_count = length errs, error_types = count_error_types errs\<rparr>)"

definition check_text :: "unicode \<Rightarrow> ErrorChecker \<Rightarrow> ustring \<Rightarrow> bool \<Rightarrow> bool \<Rightarrow> check_result" where
  "check_text U self text check_gram check_ocr =
     make_result text
       (spelling_step U self check_gram
         (grammar_step self check_gram
           (context_step U self
             (ocr_step U text check_ocr
               (hyphenation_step U ([], text))))))"

section \<open>Example capabilities\<close>

text \<open>
  A grammar checker that flags the first character of every text as a typo and
  proposes U+0430 for it, and a checker object that has only this capability.
\<close>

definition typo_lt :: language_tool where
  "typo_lt = (\<lambda>text. Some [\<lparr>m_category = ''TYPOS'', m_replacements = [[1072]],
                               m_offset = 0, m_length = 1\<rparr>])"

definition grammar_only_checker :: ErrorChecker where
  "grammar_only_checker = ErrorChecker_init (\<lambda>lang. None) (\<lambda>lang. Some typo_lt) ''ru''"

text \<open>
  The selection as the specification words it: the text with the greatest length
  after trimming, the earliest one among equals.
\<close>

definition spec_select_trimmed :: "ustring list \<Rightarrow> ustring" where
  "spec_select_trimmed texts =
     py_strip (fold (\<lambda>text best.
                       if length (py_strip text) > length (py_strip best) then text else best)
                 texts [])"

text \<open>
  An image library on images that are numbers: every file loads as image 0, the
  grayscale conversion gives image 1 and the six transforms give images 2 to 7.
  \<open>unreadable_cv\<close> is the same library with no file that loads.
\<close>

definition numbering_cv :: "(nat, unit) cv2" where
  "numbering_cv =
     \<lparr>imread = (\<lambda>path. Some 0), cvtColor_gray = (\<lambda>img. Inr 1), clahe_apply = (\<lambda>img. Inr 2),
      threshold_otsu = (\<lambda>img. Inr 3), adaptiveThreshold = (\<lambda>img. Inr 4),
      morphologyEx_close = (\<lambda>img. Inr 5), fastNlMeansDenoising = (\<lambda>img. Inr 6),
      filter2D_sharp = (\<lambda>img. Inr 7)\<rparr>"

definition unreadable_cv :: "(nat, unit) cv2" where
  "unreadable_cv = numbering_cv\<lparr>imread := (\<lambda>path. None)\<rparr>"

text \<open>The same library once more, with a sharpening filter that raises.\<close>

definition failing_cv :: "(nat, unit) cv2" where
  "failing_cv = numbering_cv\<lparr>filter2D_sharp := (\<lambda>img. Inl ())\<rparr>"

definition any_path_exists :: "ustring \<Rightarrow> bool" where
  "any_path_exists path = True"

text \<open>
  An engine that reads "ab" on image 1, "a" followed by three line feeds on image 2,
  and raises on every other image.
\<close>

definition padded_ocr :: "nat \<Rightarrow> ustring option" where
  "padded_ocr img =
     (if img = 1 then Some [97, 98]
      else if img = 2 then Some [97, 10, 10, 10]
      else None)"

text \<open>The dictionary \<open>replacements\<close> read as a function on characters.\<close>

definition fix_char :: "uchar \<Rightarrow> uchar" where
  "fix_char c = (case map_of replacements c of None \<Rightarrow> c | Some good_char \<Rightarrow> good_char)"

text \<open>
  A character and what the confusable-character pass may make of it: the character
  itself, or its value in \<open>replacements\<close>.
\<close>

definition changed_by_table :: "uchar \<Rightarrow> uchar \<Rightarrow> bool" where
  "changed_by_table a b = (b = a \<or> (a, b) \<in> set replacements)"

text \<open>The text of the end-to-end scenario, and a text with the same token twice.\<close>

definition zazhigalka :: ustring where
  "zazhigalka =
     [1055, 1088, 1080, 1074, 1077, 1090, 32, 51, 32,
      51, 1072, 1078, 1080, 1075, 1072, 1083, 1082, 1072]"

definition twice_3a :: ustring where
  "twice_3a = [51, 1072, 32, 51, 1072]"

text \<open>
  The word of the specification's example, split by a hyphen and a line feed, and
  the word in one piece; and the checker object with neither capability.
\<close>

definition cherny_hyphenated :: ustring where
  "cherny_hyphenated = [1095, 1077, 1088, 45, 10, 1085, 1099, 1081]"

definition cherny :: ustring where
  "cherny = [1095, 1077, 1088, 1085, 1099, 1081]"

definition bare_checker :: ErrorChecker where
  "bare_checker = ErrorChecker_init (\<lambda>lang. None) (\<lambda>lang. None) ''ru''"

text \<open>
  A word with the digit 0 in its first half, split by a hyphen and a line feed, and
  the same word in one piece.
\<close>

definition zero_hyphenated :: ustring where
  "zero_hyphenated = [1095, 48, 1088, 45, 10, 1085, 1099, 1081]"

definition zero_joined :: ustring where
  "zero_joined = [1095, 48, 1088, 1085, 1099, 1081]"

text \<open>
  A grammar checker whose every call raises; a spell checker that reports two
  unknown words, has one candidate for the first and raises on the second; and a
  checker object with these two capabilities.
\<close>

definition raising_lt :: language_tool where
  "raising_lt = (\<lambda>text. None)"

definition partial_spell :: spell_checker where
  "partial_spell =
     \<lparr>unknown = (\<lambda>words. Some [[1072], [1073]]),
      candidates_of = (\<lambda>word. if word = [1072] then Some [[1074]] else None)\<rparr>"

definition raising_checker :: ErrorChecker where
  "raising_checker = ErrorChecker_init (\<lambda>lang. Some partial_spell) (\<lambda>lang. Some raising_lt) ''ru''"

text \<open>
  The spans that are kept in the words of the specification, those of category
  \<open>TYPOS\<close> or \<open>GRAMMAR\<close>; and the spans of which \<open>_check_grammar\<close> makes an
  entry, which must have a replacement as well.
\<close>

definition spec_kept_span :: "lt_match \<Rightarrow> bool" where
  "spec_kept_span m = (m_category m = ''TYPOS'' \<or> m_category m = ''GRAMMAR'')"

definition entry_span :: "lt_match \<Rightarrow> bool" where
  "entry_span m =
     ((m_category m = ''TYPOS'' \<or> m_category m = ''GRAMMAR'') \<and> m_replacements m \<noteq> [])"

text \<open>
  A typo span without a replacement, a grammar checker that flags it in every
  text, and a checker object with this capability alone.
\<close>

definition bare_typo_span :: lt_match where
  "bare_typo_span = \<lparr>m_category = ''TYPOS'', m_replacements = [], m_offset = 0, m_length = 1\<rparr>"

definition no_replacement_lt :: language_tool where
  "no_replacement_lt = (\<lambda>text. Some [bare_typo_span])"

definition no_replacement_checker :: ErrorChecker where
  "no_replacement_checker =
     ErrorChecker_init (\<lambda>lang. None) (\<lambda>lang. Some no_replacement_lt) ''ru''"

text \<open>
  A text with two split words, the first of which occurs once more inside the
  second, and the text with both words in one piece.
\<close>

definition twice_split :: ustring where
  "twice_split = [1073, 45, 10, 1074, 32, 1103, 45, 10, 1073, 45, 10, 1074]"

definition twice_joined :: ustring where
  "twice_joined = [1073, 1074, 32, 1103, 1073, 1074]"

text \<open>
  A string that is the phrase \<open>w\<close> up to letter case: a character that has case
  may be replaced by one with the same lower case.
\<close>

definition same_up_to_case :: "unicode \<Rightarrow> ustring \<Rightarrow> ustring \<Rightarrow> bool" where
  "same_up_to_case U w m =
     list_all2 (\<lambda>p ch. ch = p \<or> (iscased U p \<and> lower U ch = lower U p)) w m"

text \<open>
  Whether two characters of a pattern can match one and the same character of a
  text, read off the tables; and a phrase of which no two matches can overlap: for
  every shift, some character of the phrase cannot match what the character above
  it in the shifted copy matches.
\<close>

definition can_match_same :: "unicode \<Rightarrow> uchar \<Rightarrow> uchar \<Rightarrow> bool" where
  "can_match_same U p q =
     (if iscased U p then
        (if iscased U q
         then list_ex (\<lambda>x. x \<in> set (lower U q # ignorecase_fixes U (lower U q)))
                (lower U p # ignorecase_fixes U (lower U p))
         else lower U q \<in> set (lower U p # ignorecase_fixes U (lower U p)))
      else
        (if iscased U q then lower U p \<in> set (lower U q # ignorecase_fixes U (lower U q))
         else p = q))"

definition borderless :: "unicode \<Rightarrow> ustring \<Rightarrow> bool" where
  "borderless U w =
     list_all (\<lambda>k. list_ex (\<lambda>i. \<not> can_match_same U (w ! (k + i)) (w ! i)) [0..<length w - k])
       [1..<length w]"

text \<open>
  The phrase of the example in lower case and in upper case, its correct phrase,
  and a text in which the shortest phrase of the table occurs twice, the first
  time behind its own first letter.
\<close>

definition v_nes :: ustring where
  "v_nes = [1074, 32, 1085, 1077, 1089]"

definition v_nes_upper :: ustring where
  "v_nes_upper = [1042, 32, 1053, 1045, 1057]"

definition v_nee :: ustring where
  "v_nee = [1074, 32, 1085, 1077, 1077]"

definition vve_ve :: ustring where
  "vve_ve = [1074, 1074, 1077, 32, 1074, 1077]"

section \<open>Properties\<close>

subsection \<open>Counts of the result\<close>

lemma sum_dict_incr: "sum_list (map snd (dict_incr k kvs)) = Suc (sum_list (map snd kvs))"
  by (induction k kvs rule: dict_incr.induct) auto

lemma sum_count_fold:
  "sum_list (map snd (fold (\<lambda>error counts. dict_incr (etype error) counts) es acc))
     = sum_list (map snd acc) + length es"
  by (induction es arbitrary: acc) (simp_all add: sum_dict_incr)

lemma sum_count_error_types: "sum_list (map snd (count_error_types es)) = length es"
  by (simp add: count_error_types_def sum_count_fold)

text \<open>
  C9. In every result of \<open>check_text\<close>, \<open>error_count\<close> is the length of the list
  \<open>errors\<close>, and the counts of \<open>error_types\<close> add up to \<open>error_count\<close>.
\<close>

theorem issue_count_invariant:
  "error_count (check_text U self text check_gram check_ocr)
     = length (errors (check_text U self text check_gram check_ocr))
   \<and> sum_list (map snd (error_types (check_text U self text check_gram check_ocr)))
     = error_count (check_text U self text check_gram check_ocr)"
  by (simp add: check_text_def make_result_def sum_count_error_types split: prod.split)

subsection \<open>The grammar step leaves the text alone\<close>

lemma grammar_loop_confidence:
  "map confidence (grammar_loop text ms)
     = replicate (length (grammar_loop text ms)) (Some (8 / 10))"
  by (induction ms) (auto simp: grammar_entry_def split: list.splits)

lemma check_grammar_confidence:
  "map confidence (check_grammar self text)
     = replicate (length (check_grammar self text)) (Some (8 / 10))"
  by (simp add: check_grammar_def grammar_loop_confidence split: option.splits)

lemma fold_apply_grammar_keep:
  "map confidence es = replicate (length es) (Some (8 / 10))
     \<Longrightarrow> fold apply_grammar_error es ct = ct"
  by (induction es arbitrary: ct) (auto simp: apply_grammar_error_def)

text \<open>
  C10. The grammar step never changes \<open>corrected_text\<close>: every entry of
  \<open>check_grammar\<close> has confidence 0.8, which is not above 0.8, so no replacement is
  made, while the entries are still appended to \<open>errors\<close>.
\<close>

theorem grammar_step_keeps_text:
  "snd (grammar_step self check_gram (errs, ct)) = ct
   \<and> fst (grammar_step self check_gram (errs, ct))
       = errs @ (if check_gram \<and> has_language_tool self then check_grammar self ct else [])
   \<and> map confidence (check_grammar self ct)
       = replicate (length (check_grammar self ct)) (Some (8 / 10))"
  by (simp add: grammar_step_def Let_def fold_apply_grammar_keep check_grammar_confidence)

theorem grammar_step_keeps_text_witness:
  "snd (grammar_step grammar_only_checker True ([], [1073, 1073])) = [1073, 1073]
   \<and> map original (fst (grammar_step grammar_only_checker True ([], [1073, 1073]))) = [[1073]]
   \<and> map suggestion (fst (grammar_step grammar_only_checker True ([], [1073, 1073]))) = [[1072]]"
  using grammar_step_keeps_text [of grammar_only_checker True "[]" "[1073, 1073]"]
  by (simp add: grammar_only_checker_def ErrorChecker_init_def typo_lt_def check_grammar_def
      grammar_entry_def slice_def)

subsection \<open>Selection of the recognised text\<close>

lemma best_text_loop_char:
  "(best_text_loop ocr b imgs = b
      \<and> (\<forall>t \<in> set (map (recognize_with_tesseract ocr) imgs). length t \<le> length b))
   \<or> (\<exists>i < length imgs.
        best_text_loop ocr b imgs = map (recognize_with_tesseract ocr) imgs ! i
        \<and> length b < length (map (recognize_with_tesseract ocr) imgs ! i)
        \<and> (\<forall>j < length imgs. length (map (recognize_with_tesseract ocr) imgs ! j)
                                \<le> length (map (recognize_with_tesseract ocr) imgs ! i))
        \<and> (\<forall>j < i. length (map (recognize_with_tesseract ocr) imgs ! j)
                      < length (map (recognize_with_tesseract ocr) imgs ! i)))"
proof (induction imgs arbitrary: b)
  case Nil
  then show ?case by simp
next
  case (Cons x xs)
  let ?t = "recognize_with_tesseract ocr x"
  let ?ts = "map (recognize_with_tesseract ocr) xs"
  let ?b' = "if length ?t > length b then ?t else b"
  have step: "best_text_loop ocr b (x # xs) = best_text_loop ocr ?b' xs"
    by (simp add: Let_def)
  from Cons.IH [of ?b'] show ?case
  proof
    assume A: "best_text_loop ocr ?b' xs = ?b' \<and> (\<forall>t \<in> set ?ts. length t \<le> length ?b')"
    show ?thesis
    proof (cases "length ?t > length b")
      case True
      with A have r: "best_text_loop ocr b (x # xs) = ?t" and le: "\<forall>t \<in> set ?ts. length t \<le> length ?t"
        using step by auto
      have "\<forall>j < length (x # xs). length (map (recognize_with_tesseract ocr) (x # xs) ! j) \<le> length ?t"
        using le by (auto simp: nth_Cons split: nat.splits)
      with r True show ?thesis
        by (intro disjI2 exI [of _ 0]) simp
    next
      case False
      with A show ?thesis using step by auto
    qed
  next
    assume "\<exists>i < length xs.
        best_text_loop ocr ?b' xs = ?ts ! i \<and> length ?b' < length (?ts ! i)
        \<and> (\<forall>j < length xs. length (?ts ! j) \<le> length (?ts ! i))
        \<and> (\<forall>j < i. length (?ts ! j) < length (?ts ! i))"
    then obtain i where i: "i < length xs"
      and r: "best_text_loop ocr ?b' xs = ?ts ! i"
      and gt: "length ?b' < length (?ts ! i)"
      and mx: "\<forall>j < length xs. length (?ts ! j) \<le> length (?ts ! i)"
      and first: "\<forall>j < i. length (?ts ! j) < length (?ts ! i)"
      by blast
    from gt have tlt: "length ?t < length (?ts ! i)" and blt: "length b < length (?ts ! i)"
      by (auto split: if_splits)
    have m1: "\<forall>j < length (x # xs). length (map (recognize_with_tesseract ocr) (x # xs) ! j)
                \<le> length (map (recognize_with_tesseract ocr) (x # xs) ! Suc i)"
      using mx tlt by (auto simp: nth_Cons split: nat.splits)
    have m2: "\<forall>j < Suc i. length (map (recognize_with_tesseract ocr) (x # xs) ! j)
                < length (map (recognize_with_tesseract ocr) (x # xs) ! Suc i)"
      using first tlt by (auto simp: nth_Cons split: nat.splits)
    show ?thesis
      apply (rule disjI2)
      apply (rule exI [of _ "Suc i"])
      using i r blt m1 m2 step by simp
  qed
qed

text \<open>
  C1 (amended). The lengths compared are those of the texts as extracted, not of the
  trimmed texts. When the file exists and the variants are generated,
  \<open>recognize_text\<close> succeeds; its text is empty when every variant gives the empty
  text, and otherwise it is the trimmed text of the variant whose untrimmed text is
  longest, the earliest such variant when several have that length.
\<close>

theorem recognize_text_longest_raw:
  assumes "exists path" and "preprocess_image cv path = Inr images"
  shows "\<exists>r. recognize_text cv ocr exists path = Inr r
     \<and> characters (stats r) = length (full_text r)
     \<and> (if list_all (\<lambda>img. recognize_with_tesseract ocr img = []) images then full_text r = []
        else \<exists>i < length images.
               full_text r = py_strip (recognize_with_tesseract ocr (images ! i))
               \<and> (\<forall>j < length images. length (recognize_with_tesseract ocr (images ! j))
                                          \<le> length (recognize_with_tesseract ocr (images ! i)))
               \<and> (\<forall>j < i. length (recognize_with_tesseract ocr (images ! j))
                              < length (recognize_with_tesseract ocr (images ! i))))"
proof -
  let ?best = "best_text_loop ocr [] images"
  have r: "recognize_text cv ocr exists path =
      Inr \<lparr>full_text = py_strip ?best,
           stats = \<lparr>characters = length (py_strip ?best), words = length (py_split (py_strip ?best))\<rparr>\<rparr>"
    using assms by (simp add: recognize_text_def Let_def)
  have sel: "if list_all (\<lambda>img. recognize_with_tesseract ocr img = []) images then py_strip ?best = []
        else \<exists>i < length images.
               py_strip ?best = py_strip (recognize_with_tesseract ocr (images ! i))
               \<and> (\<forall>j < length images. length (recognize_with_tesseract ocr (images ! j))
                                          \<le> length (recognize_with_tesseract ocr (images ! i)))
               \<and> (\<forall>j < i. length (recognize_with_tesseract ocr (images ! j))
                              < length (recognize_with_tesseract ocr (images ! i)))"
  proof (cases "list_all (\<lambda>img. recognize_with_tesseract ocr img = []) images")
    case True
    from True have "\<forall>i < length images. recognize_with_tesseract ocr (images ! i) = []"
      by (simp add: list_all_iff)
    with best_text_loop_char [of ocr "[]" images] have "?best = []"
      by auto
    with True show ?thesis by (simp add: py_strip_def)
  next
    case False
    then obtain img where "img \<in> set images" "recognize_with_tesseract ocr img \<noteq> []"
      by (auto simp: list_all_iff)
    with best_text_loop_char [of ocr "[]" images] False show ?thesis
      by auto
  qed
  show ?thesis using r sel by simp
qed


theorem recognize_text_longest_raw_witness:
  "any_path_exists [] \<and> preprocess_image numbering_cv [] = Inr [1, 2, 3, 4, 5, 6, 7]
   \<and> (\<exists>r. recognize_text numbering_cv padded_ocr any_path_exists [] = Inr r
        \<and> full_text r = py_strip (recognize_with_tesseract padded_ocr 2)
        \<and> full_text r = [97])"
proof -
  have h1: "any_path_exists []"
    by (simp add: any_path_exists_def)
  have h2: "preprocess_image numbering_cv [] = Inr [1, 2, 3, 4, 5, 6, 7]"
    by (simp add: preprocess_image_def numbering_cv_def)
  from recognize_text_longest_raw
    [where exists = any_path_exists and path = "[]" and cv = numbering_cv and ocr = padded_ocr,
     OF h1 h2]
  obtain r where r: "recognize_text numbering_cv padded_ocr any_path_exists [] = Inr r"
    by blast
  have "recognize_text numbering_cv padded_ocr any_path_exists [] =
      Inr \<lparr>full_text = [97], stats = \<lparr>characters = 1, words = 1\<rparr>\<rparr>"
    using h1 h2
    by (simp add: recognize_text_def padded_ocr_def recognize_with_tesseract_def
        py_strip_def py_isspace_def py_split_def runs_def Let_def)
  with r have "full_text r = [97]" by auto
  moreover have "py_strip (recognize_with_tesseract padded_ocr 2) = [97]"
    by (simp add: padded_ocr_def recognize_with_tesseract_def py_strip_def py_isspace_def)
  ultimately show ?thesis using h1 h2 r by simp
qed

text \<open>
  The claim C1 as stated fails: the second variant has the longer untrimmed text and
  is selected, although the trimmed text of the first variant is the longer one.
\<close>

theorem recognize_text_trimmed_counterexample:
  "preprocess_image numbering_cv [] = Inr [1, 2, 3, 4, 5, 6, 7]
   \<and> recognize_text numbering_cv padded_ocr any_path_exists []
       = Inr \<lparr>full_text = [97], stats = \<lparr>characters = 1, words = 1\<rparr>\<rparr>
   \<and> spec_select_trimmed (map (recognize_with_tesseract padded_ocr) [1, 2, 3, 4, 5, 6, 7])
       = [97, 98]"
  by (simp add: preprocess_image_def numbering_cv_def recognize_text_def any_path_exists_def
      padded_ocr_def recognize_with_tesseract_def spec_select_trimmed_def
      py_strip_def py_isspace_def py_split_def runs_def Let_def)

subsection \<open>Variant generation\<close>

text \<open>
  C8 (amended). Variant generation does not fail for a file that cannot be loaded:
  it returns the empty list, and \<open>recognize_text\<close> then succeeds with the empty
  text. For a file that loads, either one of the image operations raises, or the
  result is exactly the seven variants in their fixed order, the grayscale image
  first; no transform is left out. An exception of an image operation is not
  caught by the generation: \<open>recognize_text\<close> catches it and reports failure
  with it.
\<close>

theorem preprocess_image_cases:
  "(imread cv path = None \<longrightarrow> preprocess_image cv path = Inr [])
   \<and> (exists path \<longrightarrow> imread cv path = None \<longrightarrow>
        recognize_text cv ocr exists path
          = Inr \<lparr>full_text = [], stats = \<lparr>characters = 0, words = 0\<rparr>\<rparr>)
   \<and> (exists path \<longrightarrow> preprocess_image cv path = Inl exn \<longrightarrow>
        recognize_text cv ocr exists path = Inl (Raised exn))
   \<and> (\<forall>img. imread cv path = Some img \<longrightarrow>
        (\<exists>e. preprocess_image cv path = Inl e
           \<and> (cvtColor_gray cv img = Inl e
              \<or> (\<exists>gray. cvtColor_gray cv img = Inr gray
                   \<and> Inl e \<in> {clahe_apply cv gray, threshold_otsu cv gray,
                              adaptiveThreshold cv gray, morphologyEx_close cv gray,
                              fastNlMeansDenoising cv gray, filter2D_sharp cv gray})))
        \<or> (\<exists>gray enhanced otsu adaptive morph denoised sharpened.
              cvtColor_gray cv img = Inr gray \<and> clahe_apply cv gray = Inr enhanced
              \<and> threshold_otsu cv gray = Inr otsu \<and> adaptiveThreshold cv gray = Inr adaptive
              \<and> morphologyEx_close cv gray = Inr morph
              \<and> fastNlMeansDenoising cv gray = Inr denoised
              \<and> filter2D_sharp cv gray = Inr sharpened
              \<and> preprocess_image cv path
                  = Inr [gray, enhanced, otsu, adaptive, morph, denoised, sharpened]))"
proof (intro conjI impI allI)
  assume "imread cv path = None"
  then show "preprocess_image cv path = Inr []"
    by (simp add: preprocess_image_def)
next
  assume "exists path" "imread cv path = None"
  then show "recognize_text cv ocr exists path
      = Inr \<lparr>full_text = [], stats = \<lparr>characters = 0, words = 0\<rparr>\<rparr>"
    by (simp add: recognize_text_def preprocess_image_def py_strip_def py_split_def runs_def)
next
  assume "exists path" "preprocess_image cv path = Inl exn"
  then show "recognize_text cv ocr exists path = Inl (Raised exn)"
    by (simp add: recognize_text_def)
next
  fix img
  assume "imread cv path = Some img"
  then show "(\<exists>e. preprocess_image cv path = Inl e
           \<and> (cvtColor_gray cv img = Inl e
              \<or> (\<exists>gray. cvtColor_gray cv img = Inr gray
                   \<and> Inl e \<in> {clahe_apply cv gray, threshold_otsu cv gray,
                              adaptiveThreshold cv gray, morphologyEx_close cv gray,
                              fastNlMeansDenoising cv gray, filter2D_sharp cv gray})))
        \<or> (\<exists>gray enhanced otsu adaptive morph denoised sharpened.
              cvtColor_gray cv img = Inr gray \<and> clahe_apply cv gray = Inr enhanced
              \<and> threshold_otsu cv gray = Inr otsu \<and> adaptiveThreshold cv gray = Inr adaptive
              \<and> morphologyEx_close cv gray = Inr morph
              \<and> fastNlMeansDenoising cv gray = Inr denoised
              \<and> filter2D_sharp cv gray = Inr sharpened
              \<and> preprocess_image cv path
                  = Inr [gray, enhanced, otsu, adaptive, morph, denoised, sharpened])"
    by (auto simp: preprocess_image_def split: sum.splits)
qed

theorem preprocess_image_cases_witness:
  "imread unreadable_cv [] = None \<and> any_path_exists []
   \<and> preprocess_image unreadable_cv [] = Inr []
   \<and> recognize_text unreadable_cv padded_ocr any_path_exists []
       = Inr \<lparr>full_text = [], stats = \<lparr>characters = 0, words = 0\<rparr>\<rparr>
   \<and> imread numbering_cv [] = Some 0
   \<and> preprocess_image numbering_cv [] = Inr [1, 2, 3, 4, 5, 6, 7]
   \<and> preprocess_image failing_cv [] = Inl ()
   \<and> recognize_text failing_cv padded_ocr any_path_exists [] = Inl (Raised ())"
proof -
  have h: "any_path_exists []"
    by (simp add: any_path_exists_def)
  have f: "preprocess_image failing_cv [] = Inl ()"
    by (simp add: preprocess_image_def failing_cv_def numbering_cv_def)
  note t = preprocess_image_cases [where exists = any_path_exists and path = "[]"
      and ocr = padded_ocr]
  have a: "preprocess_image unreadable_cv [] = Inr []
      \<and> recognize_text unreadable_cv padded_ocr any_path_exists []
          = Inr \<lparr>full_text = [], stats = \<lparr>characters = 0, words = 0\<rparr>\<rparr>"
    using t [where cv = unreadable_cv] h by (simp add: unreadable_cv_def numbering_cv_def)
  have b: "preprocess_image numbering_cv [] = Inr [1, 2, 3, 4, 5, 6, 7]"
    using t [where cv = numbering_cv, THEN conjunct2, THEN conjunct2, THEN conjunct2]
    by (simp add: numbering_cv_def preprocess_image_def)
  have c: "recognize_text failing_cv padded_ocr any_path_exists [] = Inl (Raised ())"
    using t [where cv = failing_cv and exn = "()", THEN conjunct2, THEN conjunct2, THEN conjunct1]
      h f by simp
  from a b c h f show ?thesis
    by (simp add: unreadable_cv_def numbering_cv_def)
qed

text \<open>
  The claim C8 as stated fails: for a file that does not load there is no error, and
  the list returned does not contain the grayscale image.
\<close>

theorem preprocess_image_decode_counterexample:
  "imread unreadable_cv [] = None
   \<and> preprocess_image unreadable_cv [] = Inr []
   \<and> recognize_text unreadable_cv padded_ocr any_path_exists []
       = Inr \<lparr>full_text = [], stats = \<lparr>characters = 0, words = 0\<rparr>\<rparr>"
  by (simp add: unreadable_cv_def numbering_cv_def any_path_exists_def preprocess_image_def
      recognize_text_def py_strip_def py_split_def runs_def)

subsection \<open>Confusable characters\<close>

lemma replace_ne_single:
  "replace_ne b [] [g] s = map (\<lambda>c. if c = b then g else c) s"
  by (induction s) (simp_all add: startswith_def)

lemma py_replace_single:
  "py_replace s [b] [g] = map (\<lambda>c. if c = b then g else c) s"
  by (simp add: py_replace_def replace_ne_single)

lemma eq_map_idI: "(\<And>x. x \<in> set xs \<Longrightarrow> f x = x) \<Longrightarrow> xs = map f xs"
  by (simp add: map_idI)

lemma correct_word_map: "correct_word word = map fix_char word"
  unfolding correct_word_def replacements_def fix_char_def
  by (auto simp: py_replace_single intro!: eq_map_idI)

lemma fix_char_cases: "fix_char c = c \<or> (c, fix_char c) \<in> set replacements"
  by (simp add: fix_char_def replacements_def)

lemma fix_char_idem: "fix_char (fix_char c) = fix_char c"
  by (simp add: fix_char_def replacements_def)

lemma fix_char_fixed: "(fix_char c = c) = (c \<notin> fst ` set replacements)"
  by (simp add: fix_char_def replacements_def)

lemma correct_word_same: "(correct_word word = word) = (set word \<inter> fst ` set replacements = {})"
proof -
  have "(map fix_char word = word) = (\<forall>c \<in> set word. fix_char c = c)"
    by (induction word) auto
  then show ?thesis
    by (auto simp: correct_word_map fix_char_fixed)
qed

lemma changed_by_table_fix: "changed_by_table a b = (b = a \<or> b = fix_char a)"
  by (auto simp: changed_by_table_def fix_char_def replacements_def)

lemma changed_by_table_trans:
  "changed_by_table a b \<Longrightarrow> changed_by_table b c \<Longrightarrow> changed_by_table a c"
  by (auto simp: changed_by_table_fix fix_char_idem)

lemma list_all2_fix: "list_all2 changed_by_table w (map fix_char w)"
  by (induction w) (simp_all add: changed_by_table_fix)

lemma replace_ne_related:
  "list_all2 changed_by_table (o1 # os) new
     \<Longrightarrow> list_all2 changed_by_table s (replace_ne o1 os new s)"
proof (induction o1 os new s rule: replace_ne.induct)
  case (1 o1 os new)
  then show ?case by simp
next
  case (2 o1 os new c cs)
  show ?case
  proof (cases "startswith (c # cs) (o1 # os)")
    case True
    then have s: "c # cs = (o1 # os) @ drop (length os) cs"
      by (auto simp: startswith_def) (metis append_take_drop_id)
    have "list_all2 changed_by_table ((o1 # os) @ drop (length os) cs)
            (new @ replace_ne o1 os new (drop (length os) cs))"
      using 2(1) [OF True 2(3)] 2(3) by (intro list_all2_appendI)
    with True s show ?thesis by simp
  next
    case False
    with 2(2) [OF False 2(3)] show ?thesis
      by (simp add: changed_by_table_fix)
  qed
qed

lemma py_replace_fix:
  "list_all2 changed_by_table s (py_replace s w (correct_word w))"
proof (cases w)
  case Nil
  then show ?thesis
    by (simp add: py_replace_def correct_word_map) (induction s; simp add: changed_by_table_fix)
next
  case (Cons a as)
  then show ?thesis
    using replace_ne_related [of a as "map fix_char (a # as)" s] list_all2_fix [of "a # as"]
    by (simp add: py_replace_def correct_word_map)
qed

lemma apply_replace_all_related:
  "\<forall>e \<in> set es. suggestion e = correct_word (original e)
     \<Longrightarrow> list_all2 changed_by_table ct (apply_replace_all es ct)"
proof (induction es arbitrary: ct)
  case Nil
  then show ?case
    by (simp add: apply_replace_all_def list_all2_refl changed_by_table_def)
next
  case (Cons e es)
  have step: "list_all2 changed_by_table ct (py_replace ct (original e) (suggestion e))"
    using Cons.prems py_replace_fix [of ct "original e"] by simp
  have rest: "list_all2 changed_by_table (py_replace ct (original e) (suggestion e))
      (apply_replace_all es (py_replace ct (original e) (suggestion e)))"
    using Cons by simp
  have "list_all2 changed_by_table ct
      (apply_replace_all es (py_replace ct (original e) (suggestion e)))"
    using step rest changed_by_table_trans by (rule list_all2_trans [rotated])
  then show ?case by (simp add: apply_replace_all_def)
qed

lemma check_ocr_errors_original:
  "map original (check_ocr_errors U text)
     = filter (\<lambda>word. set word \<inter> fst ` set replacements \<noteq> {}) (runs (isword U) text)"
  by (simp add: check_ocr_errors_def ocr_entry_def comp_def correct_word_same)

lemma check_ocr_errors_suggestion:
  "e \<in> set (check_ocr_errors U text) \<Longrightarrow> suggestion e = correct_word (original e)"
  by (auto simp: check_ocr_errors_def ocr_entry_def)

text \<open>
  C4 (amended). The entries of the confusable-character pass are, in order, one
  for every token occurrence that contains a character of the table (a token that
  occurs twice gives two entries), and none for a token without such a character.
  The suggestion of an entry is its token after \<open>correct_word\<close>, which has the
  same length and differs from the token only where the token has a character of
  the table, replaced by its value in the table; and applying the entries to a
  text changes only such characters, in that way.
\<close>

theorem check_ocr_errors_entries:
  "map original (check_ocr_errors U text)
     = filter (\<lambda>word. set word \<inter> fst ` set replacements \<noteq> {}) (runs (isword U) text)
   \<and> map suggestion (check_ocr_errors U text)
       = map correct_word (map original (check_ocr_errors U text))
   \<and> list_all2 changed_by_table word (correct_word word)
   \<and> list_all2 changed_by_table ct (apply_replace_all (check_ocr_errors U text) ct)"
proof (intro conjI)
  show "map original (check_ocr_errors U text)
     = filter (\<lambda>word. set word \<inter> fst ` set replacements \<noteq> {}) (runs (isword U) text)"
    by (rule check_ocr_errors_original)
  show "map suggestion (check_ocr_errors U text)
       = map correct_word (map original (check_ocr_errors U text))"
    by (simp add: check_ocr_errors_suggestion)
  show "list_all2 changed_by_table word (correct_word word)"
    by (simp add: correct_word_map list_all2_fix)
  show "list_all2 changed_by_table ct (apply_replace_all (check_ocr_errors U text) ct)"
    by (simp add: apply_replace_all_related check_ocr_errors_suggestion)
qed

lemma runs_zazh: "runs isword_table zazhigalka = [[1055, 1088, 1080, 1074, 1077, 1090], [51], [51, 1072, 1078, 1080, 1075, 1072, 1083, 1082, 1072]]"
  by (simp add: runs_def zazhigalka_def isword_table_def isalpha_table_def)

theorem check_ocr_errors_entries_witness:
  "map original (check_ocr_errors tables zazhigalka)
     = [[51], [51, 1072, 1078, 1080, 1075, 1072, 1083, 1082, 1072]]
   \<and> map suggestion (check_ocr_errors tables zazhigalka)
     = [[1047], [1047, 1072, 1078, 1080, 1075, 1072, 1083, 1082, 1072]]
   \<and> apply_replace_all (check_ocr_errors tables zazhigalka) zazhigalka
     = [1055, 1088, 1080, 1074, 1077, 1090, 32, 1047, 32, 1047, 1072, 1078, 1080, 1075, 1072, 1083, 1082, 1072]"
proof -
  have o: "map original (check_ocr_errors tables zazhigalka)
     = [[51], [51, 1072, 1078, 1080, 1075, 1072, 1083, 1082, 1072]]"
    using check_ocr_errors_entries [of tables zazhigalka "[]" "[]"]
    by (simp add: tables_def runs_zazh replacements_def)
  have s: "map suggestion (check_ocr_errors tables zazhigalka)
     = [[1047], [1047, 1072, 1078, 1080, 1075, 1072, 1083, 1082, 1072]]"
    using check_ocr_errors_entries [of tables zazhigalka "[]" "[]"] o
    by (simp add: correct_word_map fix_char_def replacements_def)
  from o s obtain e1 e2 where es: "check_ocr_errors tables zazhigalka = [e1, e2]"
    and "original e1 = [51]" "suggestion e1 = [1047]"
    "original e2 = [51, 1072, 1078, 1080, 1075, 1072, 1083, 1082, 1072]"
    "suggestion e2 = [1047, 1072, 1078, 1080, 1075, 1072, 1083, 1082, 1072]"
    by (auto simp: map_eq_Cons_conv)
  then have "apply_replace_all (check_ocr_errors tables zazhigalka) zazhigalka
     = [1055, 1088, 1080, 1074, 1077, 1090, 32, 1047, 32, 1047, 1072, 1078, 1080, 1075, 1072, 1083, 1082, 1072]"
    by (simp add: apply_replace_all_def py_replace_def zazhigalka_def startswith_def)
  with o s show ?thesis by simp
qed

text \<open>
  The claim C4 as stated fails in its last part: two entries for one distinct
  affected token.
\<close>

theorem check_ocr_errors_distinct_counterexample:
  "map original (check_ocr_errors tables twice_3a) = [[51, 1072], [51, 1072]]
   \<and> length (check_ocr_errors tables twice_3a) = 2
   \<and> remdups (map original (check_ocr_errors tables twice_3a)) = [[51, 1072]]"
proof -
  have "runs isword_table twice_3a = [[51, 1072], [51, 1072]]"
    by (simp add: runs_def twice_3a_def isword_table_def isalpha_table_def)
  then have "map original (check_ocr_errors tables twice_3a) = [[51, 1072], [51, 1072]]"
    by (simp add: check_ocr_errors_original tables_def replacements_def)
  moreover from this have "length (check_ocr_errors tables twice_3a) = 2"
    by (auto simp: map_eq_Cons_conv)
  ultimately show ?thesis by simp
qed

subsection \<open>Hyphenation\<close>

lemma slice_append: "i \<le> j \<Longrightarrow> j \<le> k \<Longrightarrow> slice s i j @ slice s j k = slice s i k"
proof -
  assume ij: "i \<le> j" and jk: "j \<le> k"
  have "take (k - i) (drop i s) = take ((j - i) + (k - j)) (drop i s)"
    using ij jk by simp
  also have "\<dots> = take (j - i) (drop i s) @ take (k - j) (drop (j - i) (drop i s))"
    by (rule take_add)
  also have "drop (j - i) (drop i s) = drop j s"
    using ij by simp
  finally show ?thesis by (simp add: slice_def)
qed

lemma slice_whole: "slice s 0 i @ slice s i (length s) = s"
  by (simp add: slice_def)

lemma slice_all_nth:
  "j \<le> length s \<Longrightarrow> list_all P (slice s i j) = (\<forall>k. i \<le> k \<and> k < j \<longrightarrow> P (s ! k))"
proof -
  assume j: "j \<le> length s"
  have "list_all P (slice s i j) = (\<forall>n < length (slice s i j). P (slice s i j ! n))"
    by (simp add: list_all_length)
  also have "\<dots> = (\<forall>n < j - i. P (s ! (i + n)))"
    using j by (auto simp: slice_def)
  also have "\<dots> = (\<forall>k. i \<le> k \<and> k < j \<longrightarrow> P (s ! k))"
  proof
    assume h: "\<forall>n < j - i. P (s ! (i + n))"
    show "\<forall>k. i \<le> k \<and> k < j \<longrightarrow> P (s ! k)"
    proof (intro allI impI)
      fix k assume "i \<le> k \<and> k < j"
      then have "k - i < j - i" "i + (k - i) = k" by auto
      with h [rule_format, of "k - i"] show "P (s ! k)" by simp
    qed
  next
    assume "\<forall>k. i \<le> k \<and> k < j \<longrightarrow> P (s ! k)"
    then show "\<forall>n < j - i. P (s ! (i + n))" by auto
  qed
  finally show ?thesis .
qed

lemma hyphen_finditer_match:
  "p \<in> set (hyphen_finditer i s) \<Longrightarrow>
     i \<le> p \<and> p + 4 \<le> i + length s \<and> is_ru_letter (s ! (p - i)) \<and> s ! (p - i + 1) = 45
     \<and> s ! (p - i + 2) = 10 \<and> is_ru_letter (s ! (p - i + 3))"
proof (induction i s rule: hyphen_finditer.induct)
  case (1 i a b c d rest)
  show ?case
  proof (cases "is_ru_letter a \<and> b = 45 \<and> c = 10 \<and> is_ru_letter d")
    case True
    with 1(3) have "p = i \<or> p \<in> set (hyphen_finditer (i + 4) rest)" by simp
    then show ?thesis
    proof
      assume "p = i" with True show ?thesis by simp
    next
      assume "p \<in> set (hyphen_finditer (i + 4) rest)"
      from 1(1) [OF True this] have h: "i + 4 \<le> p" "p + 4 \<le> i + 4 + length rest"
        "is_ru_letter (rest ! (p - (i + 4)))" "rest ! (p - (i + 4) + 1) = 45"
        "rest ! (p - (i + 4) + 2) = 10" "is_ru_letter (rest ! (p - (i + 4) + 3))"
        by auto
      define q where "q = p - (i + 4)"
      with h(1) have q: "p - i = Suc (Suc (Suc (Suc q)))" "p - (i + 4) = q"
        by arith+
      with h show ?thesis by (simp add: add.commute)
    qed
  next
    case False
    with 1(3) have "p \<in> set (hyphen_finditer (i + 1) (b # c # d # rest))" by auto
    from 1(2) [OF False this] have h: "i + 1 \<le> p" "p + 4 \<le> i + 1 + length (b # c # d # rest)"
      "is_ru_letter ((b # c # d # rest) ! (p - (i + 1)))"
      "(b # c # d # rest) ! (p - (i + 1) + 1) = 45"
      "(b # c # d # rest) ! (p - (i + 1) + 2) = 10"
      "is_ru_letter ((b # c # d # rest) ! (p - (i + 1) + 3))"
      by auto
    define q where "q = p - (i + 1)"
    with h(1) have q: "p - i = Suc q" "p - (i + 1) = q"
      by arith+
    with h show ?thesis by (simp add: add.commute)
  qed
qed simp_all

lemma word_start_loop_le: "word_start_loop alpha text k \<le> k"
  by (induction k) auto

lemma word_start_loop_alpha:
  "word_start_loop alpha text k \<le> j \<Longrightarrow> j < k \<Longrightarrow> alpha (text ! j)"
proof (induction k)
  case 0
  then show ?case by simp
next
  case (Suc k)
  show ?case
  proof (cases "alpha (text ! k)")
    case True
    with Suc show ?thesis by (cases "j = k") auto
  next
    case False
    with Suc.prems show ?thesis by simp
  qed
qed

lemma word_start_loop_stop:
  "word_start_loop alpha text k = 0 \<or> \<not> alpha (text ! (word_start_loop alpha text k - 1))"
  by (induction k) auto

declare word_end_loop.simps [simp del]

lemma word_end_loop_ge: "k \<le> word_end_loop alpha text k"
proof (induction alpha "text" k rule: word_end_loop.induct)
  case (1 alpha tx k)
  show ?case
  proof (cases "k < length tx \<and> alpha (tx ! k)")
    case True
    with 1 have "Suc k \<le> word_end_loop alpha tx (Suc k)" by simp
    moreover from True have "word_end_loop alpha tx k = word_end_loop alpha tx (Suc k)"
      by (subst word_end_loop.simps) simp
    ultimately show ?thesis by simp
  next
    case False
    then have "word_end_loop alpha tx k = k"
      by (subst word_end_loop.simps) auto
    then show ?thesis by simp
  qed
qed

lemma word_end_loop_le: "k \<le> length text \<Longrightarrow> word_end_loop alpha text k \<le> length text"
proof (induction alpha "text" k rule: word_end_loop.induct)
  case (1 alpha tx k)
  show ?case
  proof (cases "k < length tx \<and> alpha (tx ! k)")
    case True
    with 1 have "word_end_loop alpha tx (Suc k) \<le> length tx" by simp
    moreover from True have "word_end_loop alpha tx k = word_end_loop alpha tx (Suc k)"
      by (subst word_end_loop.simps) simp
    ultimately show ?thesis by simp
  next
    case False
    then have "word_end_loop alpha tx k = k"
      by (subst word_end_loop.simps) auto
    with 1(2) show ?thesis by simp
  qed
qed

lemma word_end_loop_alpha:
  "k \<le> j \<Longrightarrow> j < word_end_loop alpha text k \<Longrightarrow> alpha (text ! j)"
proof (induction alpha "text" k rule: word_end_loop.induct)
  case (1 alpha tx k)
  show ?case
  proof (cases "k < length tx \<and> alpha (tx ! k)")
    case True
    then have eq: "word_end_loop alpha tx k = word_end_loop alpha tx (Suc k)"
      by (subst word_end_loop.simps) simp
    show ?thesis
    proof (cases "j = k")
      case True
      with \<open>k < length tx \<and> alpha (tx ! k)\<close> show ?thesis by simp
    next
      case False
      with 1(2) have "Suc k \<le> j" by simp
      with 1(1) [OF True] 1(3) eq show ?thesis by simp
    qed
  next
    case False
    then have "word_end_loop alpha tx k = k"
      by (subst word_end_loop.simps) auto
    with 1(2,3) show ?thesis by simp
  qed
qed

lemma word_end_loop_stop:
  "word_end_loop alpha text k < length text \<Longrightarrow> \<not> alpha (text ! word_end_loop alpha text k)"
proof (induction alpha "text" k rule: word_end_loop.induct)
  case (1 alpha tx k)
  show ?case
  proof (cases "k < length tx \<and> alpha (tx ! k)")
    case True
    then have eq: "word_end_loop alpha tx k = word_end_loop alpha tx (Suc k)"
      by (subst word_end_loop.simps) simp
    with 1(1) [OF True] 1(2) show ?thesis by simp
  next
    case False
    then have eq: "word_end_loop alpha tx k = k"
      by (subst word_end_loop.simps) auto
    with False 1(2) show ?thesis by simp
  qed
qed

lemma slice_four:
  "p + 4 \<le> length s \<Longrightarrow> slice s p (p + 4) = [s ! p, s ! (p + 1), s ! (p + 2), s ! (p + 3)]"
proof -
  assume h: "p + 4 \<le> length s"
  have "length (slice s p (p + 4)) = 4"
    using h by (simp add: slice_def)
  moreover have "\<forall>n < 4. slice s p (p + 4) ! n = s ! (p + n)"
    using h by (simp add: slice_def)
  ultimately show ?thesis
    by (intro nth_equalityI) (auto simp: nth_Cons' less_Suc_eq numeral_eq_Suc)
qed

lemma hyphenation_entry_shape:
  assumes p: "p + 4 \<le> length text"
    and ru: "is_ru_letter (text ! p)" "text ! (p + 1) = 45" "text ! (p + 2) = 10"
      "is_ru_letter (text ! (p + 3))"
  shows "\<exists>a pre p1 p2 suf b.
      text = a @ pre @ [p1, 45, 10, p2] @ suf @ b
      \<and> is_ru_letter p1 \<and> is_ru_letter p2
      \<and> list_all (isalpha U) pre \<and> list_all (isalpha U) suf
      \<and> (a = [] \<or> \<not> isalpha U (last a)) \<and> (b = [] \<or> \<not> isalpha U (hd b))
      \<and> original (hyphenation_entry U text p) = pre @ [p1, 45, 10, p2] @ suf
      \<and> suggestion (hyphenation_entry U text p) = pre @ [p1, p2] @ suf
      \<and> etext (hyphenation_entry U text p) = [p1, 45, 10, p2]"
proof -
  define ws where "ws = word_start_loop (isalpha U) text p"
  define we where "we = word_end_loop (isalpha U) text (p + 4)"
  have ws_le: "ws \<le> p"
    by (simp add: ws_def word_start_loop_le)
  have we_ge: "p + 4 \<le> we"
    by (simp add: we_def word_end_loop_ge)
  have we_le: "we \<le> length text"
    using p by (simp add: we_def word_end_loop_le)
  define a where "a = slice text 0 ws"
  define pre where "pre = slice text ws p"
  define suf where "suf = slice text (p + 4) we"
  define b where "b = slice text we (length text)"
  have mid: "slice text p (p + 4) = [text ! p, 45, 10, text ! (p + 3)]"
    using slice_four [OF p] ru by simp
  have e1: "text = slice text 0 ws @ slice text ws (length text)"
    by (simp add: slice_whole)
  have e2: "slice text ws (length text) = slice text ws p @ slice text p (length text)"
    using ws_le p by (simp add: slice_append)
  have e3: "slice text p (length text) = slice text p (p + 4) @ slice text (p + 4) (length text)"
    using p by (simp add: slice_append)
  have e4: "slice text (p + 4) (length text) = slice text (p + 4) we @ slice text we (length text)"
    using we_ge we_le by (simp add: slice_append)
  have decomp: "text = a @ pre @ [text ! p, 45, 10, text ! (p + 3)] @ suf @ b"
    unfolding a_def pre_def suf_def b_def mid [symmetric]
    using e1 e2 e3 e4 by metis
  have pre_alpha: "list_all (isalpha U) pre"
    unfolding pre_def using p ws_le
    by (auto simp: slice_all_nth ws_def intro: word_start_loop_alpha)
  have suf_alpha: "list_all (isalpha U) suf"
    unfolding suf_def using we_le
    by (auto simp: slice_all_nth we_def intro: word_end_loop_alpha)
  have a_stop: "a = [] \<or> \<not> isalpha U (last a)"
  proof (cases "ws = 0")
    case True
    then show ?thesis by (simp add: a_def slice_def)
  next
    case False
    then have "\<not> isalpha U (text ! (ws - 1))"
      using word_start_loop_stop [of "isalpha U" "text" p] by (simp add: ws_def)
    moreover have "last a = text ! (ws - 1)"
    proof -
      have "take ws text \<noteq> []" "length (take ws text) = ws"
        using False ws_le p by auto
      then have "last (take ws text) = take ws text ! (ws - 1)"
        by (simp add: last_conv_nth)
      also have "\<dots> = text ! (ws - 1)"
        using False by simp
      finally show ?thesis by (simp add: a_def slice_def)
    qed
    ultimately show ?thesis by simp
  qed
  have b_stop: "b = [] \<or> \<not> isalpha U (hd b)"
  proof (cases "we < length text")
    case True
    then have "\<not> isalpha U (text ! we)"
      using word_end_loop_stop [of "isalpha U" "text" "p + 4"] by (simp add: we_def)
    moreover have "hd b = text ! we"
      using True by (simp add: b_def slice_def hd_drop_conv_nth)
    ultimately show ?thesis by simp
  next
    case False
    with we_le show ?thesis by (simp add: b_def slice_def)
  qed
  have orig: "original (hyphenation_entry U text p) = pre @ [text ! p, 45, 10, text ! (p + 3)] @ suf"
  proof -
    have "slice text ws we = slice text ws p @ slice text p (p + 4) @ slice text (p + 4) we"
      using ws_le we_ge by (simp add: slice_append)
    then show ?thesis
      by (simp add: hyphenation_entry_def Let_def ws_def [symmetric] we_def [symmetric]
          pre_def suf_def mid)
  qed
  have sugg: "suggestion (hyphenation_entry U text p) = pre @ [text ! p, text ! (p + 3)] @ suf"
    by (simp add: hyphenation_entry_def Let_def ws_def [symmetric] we_def [symmetric]
        pre_def suf_def)
  have etxt: "etext (hyphenation_entry U text p) = [text ! p, 45, 10, text ! (p + 3)]"
    by (simp add: hyphenation_entry_def Let_def mid)
  from decomp ru pre_alpha suf_alpha a_stop b_stop orig sugg etxt show ?thesis
    by blast
qed

lemma cherny_finditer: "hyphen_finditer 0 cherny_hyphenated = [2]"
  by (simp add: cherny_hyphenated_def is_ru_letter_def)

lemma cherny_word_start: "word_start_loop isalpha_table cherny_hyphenated 2 = 0"
  by (simp add: cherny_hyphenated_def isalpha_table_def eval_nat_numeral)

lemma cherny_word_end: "word_end_loop isalpha_table cherny_hyphenated 6 = 8"
  by code_simp

lemma cherny_entries:
  "map original (fix_word_hyphenation tables cherny_hyphenated) = [cherny_hyphenated]
   \<and> map suggestion (fix_word_hyphenation tables cherny_hyphenated) = [cherny]"
proof -
  have e: "hyphenation_entry tables cherny_hyphenated 2
      = \<lparr>etype = ''hyphenation_error'', original = cherny_hyphenated, suggestion = cherny,
         etext = [1088, 45, 10, 1085],
         description = hyphenation_description cherny_hyphenated cherny,
         confidence = None, candidates = None\<rparr>"
    by (simp add: hyphenation_entry_def Let_def tables_def cherny_word_start cherny_word_end)
      (simp add: slice_def cherny_hyphenated_def cherny_def)
  show ?thesis
    by (simp add: fix_word_hyphenation_def cherny_finditer e)
qed

lemma cherny_step: "snd (hyphenation_step tables (errs, cherny_hyphenated)) = cherny"
proof -
  from cherny_entries obtain e where e: "fix_word_hyphenation tables cherny_hyphenated = [e]"
    "original e = cherny_hyphenated" "suggestion e = cherny"
    by (auto simp: map_eq_Cons_conv)
  have "py_replace cherny_hyphenated cherny_hyphenated cherny = cherny"
    by (simp add: py_replace_def cherny_hyphenated_def cherny_def startswith_def)
  with e show ?thesis
    by (simp add: hyphenation_step_def apply_replace_all_def)
qed

lemma cherny_ocr: "check_ocr_errors tables cherny_hyphenated = []"
proof -
  have "runs isword_table cherny_hyphenated = [[1095, 1077, 1088], [1085, 1099, 1081]]"
    by (simp add: runs_def cherny_hyphenated_def isword_table_def isalpha_table_def)
  then show ?thesis
    by (simp add: check_ocr_errors_def tables_def correct_word_def replacements_def)
qed

lemma cherny_lower: "map lower_table cherny = cherny"
  by (simp add: cherny_def lower_table_def)

lemma table_lower: "map (\<lambda>(w, c). map lower_table w) context_errors_table = map fst context_errors_table"
  by (simp add: context_errors_table_def lower_table_def)

lemma cherny_context: "check_context_errors tables bare_checker cherny = []"
proof -
  have "\<forall>(w, c) \<in> set context_errors_table. \<not> py_in (map lower_table w) cherny"
    by (simp add: context_errors_table_def lower_table_def cherny_def startswith_def)
  then show ?thesis
    by (auto simp: check_context_errors_def bare_checker_def ErrorChecker_init_def
        tables_def cherny_lower)
qed

lemma cherny_check_text:
  "corrected_text (check_text tables bare_checker cherny_hyphenated True True) = cherny"
proof -
  have h: "hyphenation_step tables ([], cherny_hyphenated)
      = (fix_word_hyphenation tables cherny_hyphenated, cherny)"
    using cherny_step [of "[]"] by (simp add: hyphenation_step_def Let_def)
  have b: "\<not> has_language_tool bare_checker" "\<not> has_spellchecker bare_checker"
    by (simp_all add: bare_checker_def ErrorChecker_init_def)
  show ?thesis
    by (simp add: check_text_def h ocr_step_def cherny_ocr context_step_def cherny_context
        grammar_step_def spelling_step_def make_result_def apply_replace_all_def b)
qed

lemma hyphen_finditer_complete:
  "j + 4 \<le> length s \<Longrightarrow> is_ru_letter (s ! j) \<Longrightarrow> s ! (j + 1) = 45 \<Longrightarrow> s ! (j + 2) = 10
     \<Longrightarrow> is_ru_letter (s ! (j + 3))
     \<Longrightarrow> i + j \<in> set (hyphen_finditer i s)
         \<or> (\<exists>q \<in> set (hyphen_finditer i s). q < i + j \<and> i + j < q + 4)"
proof (induction i s arbitrary: j rule: hyphen_finditer.induct)
  case (1 i a b c d rest)
  show ?case
  proof (cases "is_ru_letter a \<and> b = 45 \<and> c = 10 \<and> is_ru_letter d")
    case True
    then have f: "hyphen_finditer i (a # b # c # d # rest) = i # hyphen_finditer (i + 4) rest"
      by simp
    consider "j = 0" | "0 < j" "j < 4" | "4 \<le> j" by linarith
    then show ?thesis
    proof cases
      case 1
      with f show ?thesis by simp
    next
      case 2
      with f show ?thesis by simp
    next
      case 3
      define j' where "j' = j - 4"
      with 3 have j: "j = Suc (Suc (Suc (Suc j')))" by simp
      from "1.prems" have "j' + 4 \<le> length rest" "is_ru_letter (rest ! j')"
        "rest ! (j' + 1) = 45" "rest ! (j' + 2) = 10" "is_ru_letter (rest ! (j' + 3))"
        by (simp_all add: j add.commute)
      from "1.IH"(1) [OF True this]
      have "i + 4 + j' \<in> set (hyphen_finditer (i + 4) rest)
          \<or> (\<exists>q \<in> set (hyphen_finditer (i + 4) rest). q < i + 4 + j' \<and> i + 4 + j' < q + 4)" .
      moreover have "i + 4 + j' = i + j" by (simp add: j)
      ultimately show ?thesis using f by auto
    qed
  next
    case False
    then have f: "hyphen_finditer i (a # b # c # d # rest)
        = hyphen_finditer (i + 1) (b # c # d # rest)"
      by auto
    have "j \<noteq> 0"
    proof
      assume "j = 0"
      with "1.prems" False show False by simp
    qed
    then obtain j' where j: "j = Suc j'" by (cases j) auto
    from "1.prems" have "j' + 4 \<le> length (b # c # d # rest)"
      "is_ru_letter ((b # c # d # rest) ! j')" "(b # c # d # rest) ! (j' + 1) = 45"
      "(b # c # d # rest) ! (j' + 2) = 10" "is_ru_letter ((b # c # d # rest) ! (j' + 3))"
      by (simp_all add: j add.commute)
    from "1.IH"(2) [OF False this]
    have "i + 1 + j' \<in> set (hyphen_finditer (i + 1) (b # c # d # rest))
        \<or> (\<exists>q \<in> set (hyphen_finditer (i + 1) (b # c # d # rest)).
              q < i + 1 + j' \<and> i + 1 + j' < q + 4)" .
    moreover have "i + 1 + j' = i + j" by (simp add: j)
    ultimately show ?thesis using f by auto
  qed
qed simp_all

lemma replace_ne_all:
  "\<forall>k < length a. \<not> startswith (drop k (a @ (o1 # os) @ b)) (o1 # os)
     \<Longrightarrow> replace_ne o1 os new (a @ (o1 # os) @ b) = a @ new @ replace_ne o1 os new b"
proof (induction a)
  case Nil
  have "startswith ((o1 # os) @ b) (o1 # os)"
    by (simp add: startswith_def)
  then show ?case by simp
next
  case (Cons x a)
  from Cons.prems have "\<not> startswith (drop 0 ((x # a) @ (o1 # os) @ b)) (o1 # os)"
    by (metis length_greater_0_conv list.discI)
  then have n: "\<not> startswith (x # a @ (o1 # os) @ b) (o1 # os)" by simp
  have "\<forall>k < length a. \<not> startswith (drop k (a @ (o1 # os) @ b)) (o1 # os)"
  proof (intro allI impI)
    fix k assume "k < length a"
    then have "Suc k < length (x # a)" by simp
    with Cons.prems have "\<not> startswith (drop (Suc k) ((x # a) @ (o1 # os) @ b)) (o1 # os)"
      by blast
    then show "\<not> startswith (drop k (a @ (o1 # os) @ b)) (o1 # os)" by simp
  qed
  with Cons.IH n show ?case by simp
qed

lemma replace_ne_absent: "\<not> py_in (o1 # os) s \<Longrightarrow> replace_ne o1 os new s = s"
  by (induction s) auto

lemma py_replace_all:
  "old \<noteq> [] \<Longrightarrow> \<forall>k < length a. \<not> startswith (drop k (a @ old @ b)) old
     \<Longrightarrow> py_replace (a @ old @ b) old new = a @ new @ py_replace b old new"
proof -
  assume ne: "old \<noteq> []" and first: "\<forall>k < length a. \<not> startswith (drop k (a @ old @ b)) old"
  from ne obtain o1 os where old: "old = o1 # os" by (cases old) auto
  from first have "replace_ne o1 os new (a @ (o1 # os) @ b) = a @ new @ replace_ne o1 os new b"
    unfolding old by (rule replace_ne_all)
  then show ?thesis by (simp add: py_replace_def old)
qed

lemma py_replace_absent: "old \<noteq> [] \<Longrightarrow> \<not> py_in old s \<Longrightarrow> py_replace s old new = s"
  by (cases old) (simp_all add: py_replace_def replace_ne_absent)

lemma twice_finditer: "hyphen_finditer 0 twice_split = [0, 5]"
  by (simp add: twice_split_def is_ru_letter_def)

lemma twice_word_start: "word_start_loop isalpha_table twice_split 5 = 5"
  by (simp add: twice_split_def isalpha_table_def eval_nat_numeral)

lemma twice_word_end:
  "word_end_loop isalpha_table twice_split 4 = 4"
  "word_end_loop isalpha_table twice_split 9 = 9"
  by code_simp+

lemma twice_entries:
  "map original (fix_word_hyphenation tables twice_split)
     = [[1073, 45, 10, 1074], [1103, 45, 10, 1073]]
   \<and> map suggestion (fix_word_hyphenation tables twice_split) = [[1073, 1074], [1103, 1073]]"
proof -
  have e1: "original (hyphenation_entry tables twice_split 0) = [1073, 45, 10, 1074]"
    "suggestion (hyphenation_entry tables twice_split 0) = [1073, 1074]"
    by (simp_all add: hyphenation_entry_def Let_def tables_def twice_word_end)
      (simp_all add: slice_def twice_split_def)
  have e2: "original (hyphenation_entry tables twice_split 5) = [1103, 45, 10, 1073]"
    "suggestion (hyphenation_entry tables twice_split 5) = [1103, 1073]"
    by (simp_all add: hyphenation_entry_def Let_def tables_def twice_word_start twice_word_end)
      (simp_all add: slice_def twice_split_def)
  show ?thesis
    by (simp add: fix_word_hyphenation_def twice_finditer e1 e2)
qed

lemma twice_step:
  "hyphenation_step tables ([], twice_split)
     = (fix_word_hyphenation tables twice_split, twice_joined)"
proof -
  from twice_entries obtain e1 e2 where e: "fix_word_hyphenation tables twice_split = [e1, e2]"
    "original e1 = [1073, 45, 10, 1074]" "suggestion e1 = [1073, 1074]"
    "original e2 = [1103, 45, 10, 1073]" "suggestion e2 = [1103, 1073]"
    by (auto simp: map_eq_Cons_conv)
  have r1: "py_replace twice_split [1073, 45, 10, 1074] [1073, 1074]
      = [1073, 1074, 32, 1103, 45, 10, 1073, 1074]"
    by (simp add: py_replace_def twice_split_def startswith_def)
  have r2: "py_replace [1073, 1074, 32, 1103, 45, 10, 1073, 1074] [1103, 45, 10, 1073] [1103, 1073]
      = twice_joined"
    by (simp add: py_replace_def twice_joined_def startswith_def)
  from e r1 r2 show ?thesis
    by (simp add: hyphenation_step_def apply_replace_all_def)
qed

lemma twice_check_text:
  "check_text tables bare_checker twice_split True True
     = make_result twice_split (fix_word_hyphenation tables twice_split, twice_joined)"
proof -
  have "runs isword_table twice_split = [[1073], [1074], [1103], [1073], [1074]]"
    by (simp add: runs_def twice_split_def isword_table_def isalpha_table_def)
  then have o: "check_ocr_errors tables twice_split = []"
    by (simp add: check_ocr_errors_def tables_def correct_word_def replacements_def)
  have "\<forall>(w, c) \<in> set context_errors_table.
      \<not> py_in (map lower_table w) (map lower_table twice_joined)"
    by (simp add: context_errors_table_def lower_table_def twice_joined_def startswith_def)
  then have c: "check_context_errors tables bare_checker twice_joined = []"
    by (auto simp: check_context_errors_def bare_checker_def ErrorChecker_init_def tables_def)
  have b: "\<not> has_language_tool bare_checker" "\<not> has_spellchecker bare_checker"
    by (simp_all add: bare_checker_def ErrorChecker_init_def)
  show ?thesis
    by (simp add: check_text_def twice_step ocr_step_def o context_step_def c grammar_step_def
        spelling_step_def apply_replace_all_def b)
qed

text \<open>
  C3. The hyphenation pass makes one entry for every match of the pattern "Russian
  letter, hyphen, line feed, Russian letter": every place where the text has this
  pattern is a match, unless it shares a character with an earlier match. The
  entry's original is the match extended to the left and to the right over all
  adjacent alphabetic characters (the characters next to it, if any, are not
  alphabetic), and its suggestion is that word without the hyphen and the line
  feed. The step replaces, for one entry after the other, every occurrence of the
  original in the text by the suggestion: the replacement goes on behind the first
  occurrence and leaves a text without an occurrence as it is. The text of the
  example becomes the word in one piece, with no hyphen followed by a line feed,
  also at the end of the whole of \<open>check_text\<close>; and in a text with two split
  words, the first of which occurs twice, both are joined at every place.
\<close>

theorem fix_word_hyphenation_entries:
  "(\<forall>e \<in> set (fix_word_hyphenation U text).
      \<exists>a pre p1 p2 suf b.
        text = a @ pre @ [p1, 45, 10, p2] @ suf @ b
        \<and> is_ru_letter p1 \<and> is_ru_letter p2
        \<and> list_all (isalpha U) pre \<and> list_all (isalpha U) suf
        \<and> (a = [] \<or> \<not> isalpha U (last a)) \<and> (b = [] \<or> \<not> isalpha U (hd b))
        \<and> original e = pre @ [p1, 45, 10, p2] @ suf
        \<and> suggestion e = pre @ [p1, p2] @ suf
        \<and> etext e = [p1, 45, 10, p2])
   \<and> length (fix_word_hyphenation U text) = length (hyphen_finditer 0 text)
   \<and> hyphenation_step U (errs, text)
       = (errs @ fix_word_hyphenation U text,
          apply_replace_all (fix_word_hyphenation U text) text)
   \<and> snd (hyphenation_step tables (errs, cherny_hyphenated)) = cherny
   \<and> corrected_text (check_text tables bare_checker cherny_hyphenated True True) = cherny
   \<and> \<not> py_in [45, 10] cherny
   \<and> fix_word_hyphenation U text = map (hyphenation_entry U text) (hyphen_finditer 0 text)
   \<and> (\<forall>p. p + 4 \<le> length text \<and> is_ru_letter (text ! p) \<and> text ! (p + 1) = 45
          \<and> text ! (p + 2) = 10 \<and> is_ru_letter (text ! (p + 3)) \<longrightarrow>
        p \<in> set (hyphen_finditer 0 text)
        \<or> (\<exists>q \<in> set (hyphen_finditer 0 text). q < p \<and> p < q + 4))
   \<and> snd (hyphenation_step U (errs, text))
       = fold (\<lambda>e t. py_replace t (original e) (suggestion e))
           (fix_word_hyphenation U text) text
   \<and> (old \<noteq> [] \<longrightarrow> (\<forall>k < length a'. \<not> startswith (drop k (a' @ old @ b')) old) \<longrightarrow>
        py_replace (a' @ old @ b') old new = a' @ new @ py_replace b' old new)
   \<and> (old \<noteq> [] \<longrightarrow> \<not> py_in old s \<longrightarrow> py_replace s old new = s)
   \<and> map original (errors (check_text tables bare_checker twice_split True True))
       = [[1073, 45, 10, 1074], [1103, 45, 10, 1073]]
   \<and> corrected_text (check_text tables bare_checker twice_split True True) = twice_joined
   \<and> \<not> py_in [45, 10] twice_joined"
proof (intro conjI ballI allI impI)
  fix e
  assume "e \<in> set (fix_word_hyphenation U text)"
  then obtain p where p: "p \<in> set (hyphen_finditer 0 text)" and e: "e = hyphenation_entry U text p"
    by (auto simp: fix_word_hyphenation_def)
  from hyphen_finditer_match [OF p]
  have "p + 4 \<le> length text" "is_ru_letter (text ! p)" "text ! (p + 1) = 45"
    "text ! (p + 2) = 10" "is_ru_letter (text ! (p + 3))"
    by simp_all
  from hyphenation_entry_shape [OF this, of U] e
  show "\<exists>a pre p1 p2 suf b.
        text = a @ pre @ [p1, 45, 10, p2] @ suf @ b
        \<and> is_ru_letter p1 \<and> is_ru_letter p2
        \<and> list_all (isalpha U) pre \<and> list_all (isalpha U) suf
        \<and> (a = [] \<or> \<not> isalpha U (last a)) \<and> (b = [] \<or> \<not> isalpha U (hd b))
        \<and> original e = pre @ [p1, 45, 10, p2] @ suf
        \<and> suggestion e = pre @ [p1, p2] @ suf
        \<and> etext e = [p1, 45, 10, p2]"
    by simp
next
  show "length (fix_word_hyphenation U text) = length (hyphen_finditer 0 text)"
    by (simp add: fix_word_hyphenation_def)
next
  show "hyphenation_step U (errs, text)
       = (errs @ fix_word_hyphenation U text,
          apply_replace_all (fix_word_hyphenation U text) text)"
    by (simp add: hyphenation_step_def Let_def)
next
  show "snd (hyphenation_step tables (errs, cherny_hyphenated)) = cherny"
    by (rule cherny_step)
next
  show "corrected_text (check_text tables bare_checker cherny_hyphenated True True) = cherny"
    by (rule cherny_check_text)
next
  show "\<not> py_in [45, 10] cherny"
    by (simp add: cherny_def startswith_def)
next
  show "fix_word_hyphenation U text = map (hyphenation_entry U text) (hyphen_finditer 0 text)"
    by (simp add: fix_word_hyphenation_def)
next
  fix p
  assume "p + 4 \<le> length text \<and> is_ru_letter (text ! p) \<and> text ! (p + 1) = 45
          \<and> text ! (p + 2) = 10 \<and> is_ru_letter (text ! (p + 3))"
  then show "p \<in> set (hyphen_finditer 0 text)
        \<or> (\<exists>q \<in> set (hyphen_finditer 0 text). q < p \<and> p < q + 4)"
    using hyphen_finditer_complete [of p "text" 0] by simp
next
  show "snd (hyphenation_step U (errs, text))
       = fold (\<lambda>e t. py_replace t (original e) (suggestion e))
           (fix_word_hyphenation U text) text"
    by (simp add: hyphenation_step_def Let_def apply_replace_all_def)
next
  assume "old \<noteq> []" "\<forall>k < length a'. \<not> startswith (drop k (a' @ old @ b')) old"
  then show "py_replace (a' @ old @ b') old new = a' @ new @ py_replace b' old new"
    by (rule py_replace_all)
next
  assume "old \<noteq> []" "\<not> py_in old s"
  then show "py_replace s old new = s"
    by (rule py_replace_absent)
next
  show "map original (errors (check_text tables bare_checker twice_split True True))
       = [[1073, 45, 10, 1074], [1103, 45, 10, 1073]]"
    using twice_entries by (simp add: twice_check_text make_result_def)
next
  show "corrected_text (check_text tables bare_checker twice_split True True) = twice_joined"
    by (simp add: twice_check_text make_result_def)
next
  show "\<not> py_in [45, 10] twice_joined"
    by (simp add: twice_joined_def startswith_def)
qed

theorem fix_word_hyphenation_entries_witness:
  "(\<exists>e \<in> set (fix_word_hyphenation tables cherny_hyphenated).
      original e = cherny_hyphenated \<and> suggestion e = cherny
      \<and> (\<exists>a pre p1 p2 suf b.
            cherny_hyphenated = a @ pre @ [p1, 45, 10, p2] @ suf @ b
            \<and> original e = pre @ [p1, 45, 10, p2] @ suf
            \<and> suggestion e = pre @ [p1, p2] @ suf))
   \<and> 5 + 4 \<le> length twice_split \<and> is_ru_letter (twice_split ! 5)
   \<and> twice_split ! (5 + 1) = 45 \<and> twice_split ! (5 + 2) = 10
   \<and> is_ru_letter (twice_split ! (5 + 3))
   \<and> hyphen_finditer 0 twice_split = [0, 5]
   \<and> py_replace ([] @ [1073, 45, 10, 1074] @ [32, 1103, 45, 10, 1073, 45, 10, 1074])
        [1073, 45, 10, 1074] [1073, 1074]
       = ([] @ [1073, 1074] @ [32, 1103, 45, 10, 1073, 1074] :: ustring)"
proof -
  from cherny_entries obtain e where e: "fix_word_hyphenation tables cherny_hyphenated = [e]"
    "original e = cherny_hyphenated" "suggestion e = cherny"
    by (auto simp: map_eq_Cons_conv)
  then have mem: "e \<in> set (fix_word_hyphenation tables cherny_hyphenated)"
    by simp
  note s = fix_word_hyphenation_entries [of tables cherny_hyphenated "[]" "[]" "[]" "[]" "[]" "[]",
      THEN conjunct1, THEN bspec, OF mem]
  then have "\<exists>a pre p1 p2 suf b.
        cherny_hyphenated = a @ pre @ [p1, 45, 10, p2] @ suf @ b
        \<and> original e = pre @ [p1, 45, 10, p2] @ suf
        \<and> suggestion e = pre @ [p1, p2] @ suf"
    by blast
  with mem e have c1: "\<exists>e \<in> set (fix_word_hyphenation tables cherny_hyphenated).
      original e = cherny_hyphenated \<and> suggestion e = cherny
      \<and> (\<exists>a pre p1 p2 suf b.
            cherny_hyphenated = a @ pre @ [p1, 45, 10, p2] @ suf @ b
            \<and> original e = pre @ [p1, 45, 10, p2] @ suf
            \<and> suggestion e = pre @ [p1, p2] @ suf)"
    by blast
  have pat: "5 + 4 \<le> length twice_split \<and> is_ru_letter (twice_split ! 5)
      \<and> twice_split ! (5 + 1) = 45 \<and> twice_split ! (5 + 2) = 10
      \<and> is_ru_letter (twice_split ! (5 + 3))"
    by (simp add: twice_split_def is_ru_letter_def)
  note t = fix_word_hyphenation_entries [of tables twice_split "[]"
      "[1073, 45, 10, 1074] :: ustring" "[]"
      "[32, 1103, 45, 10, 1073, 45, 10, 1074]" "[1073, 1074]" "[]"]
  have found: "5 \<in> set (hyphen_finditer 0 twice_split)
      \<or> (\<exists>q \<in> set (hyphen_finditer 0 twice_split). q < 5 \<and> 5 < q + 4)"
    using t [THEN conjunct2, THEN conjunct2, THEN conjunct2, THEN conjunct2,
      THEN conjunct2, THEN conjunct2, THEN conjunct2, THEN conjunct1, THEN spec, of 5] pat
    by (rule mp)
  have r: "py_replace [32, 1103, 45, 10, 1073, 45, 10, 1074] [1073, 45, 10, 1074] [1073, 1074]
      = ([32, 1103, 45, 10, 1073, 1074] :: ustring)"
    by (simp add: py_replace_def startswith_def)
  have ne: "[1073, 45, 10, 1074] \<noteq> ([] :: ustring)"
    by simp
  have first: "\<forall>k < length ([] :: ustring).
      \<not> startswith (drop k ([] @ [1073, 45, 10, 1074] @ [32, 1103, 45, 10, 1073, 45, 10, 1074]))
          [1073, 45, 10, 1074]"
    by simp
  have c3: "py_replace ([] @ [1073, 45, 10, 1074] @ [32, 1103, 45, 10, 1073, 45, 10, 1074])
        [1073, 45, 10, 1074] [1073, 1074]
       = ([] @ [1073, 1074]
         @ py_replace [32, 1103, 45, 10, 1073, 45, 10, 1074] [1073, 45, 10, 1074] [1073, 1074]
          :: ustring)"
    using t [THEN conjunct2, THEN conjunct2, THEN conjunct2, THEN conjunct2,
      THEN conjunct2, THEN conjunct2, THEN conjunct2, THEN conjunct2, THEN conjunct2,
      THEN conjunct1, THEN mp, OF ne, THEN mp, OF first] .
  have c4: "py_replace ([] @ [1073, 45, 10, 1074] @ [32, 1103, 45, 10, 1073, 45, 10, 1074])
        [1073, 45, 10, 1074] [1073, 1074]
       = ([] @ [1073, 1074] @ [32, 1103, 45, 10, 1073, 1074] :: ustring)"
    unfolding c3 r ..
  from pat have p1: "5 + 4 \<le> length twice_split" and p2: "is_ru_letter (twice_split ! 5)"
    and p3: "twice_split ! (5 + 1) = 45" and p4: "twice_split ! (5 + 2) = 10"
    and p5: "is_ru_letter (twice_split ! (5 + 3))"
    by blast+
  show ?thesis
    by (intro conjI) (rule c1 p1 p2 p3 p4 p5 twice_finditer c4)+
qed

subsection \<open>The text scanned by the confusable-character pass\<close>

lemma zero_finditer: "hyphen_finditer 0 zero_hyphenated = [2]"
  by (simp add: zero_hyphenated_def is_ru_letter_def)

lemma zero_word_start: "word_start_loop isalpha_table zero_hyphenated 2 = 2"
  by (simp add: zero_hyphenated_def isalpha_table_def eval_nat_numeral)

lemma zero_word_end: "word_end_loop isalpha_table zero_hyphenated 6 = 8"
  by code_simp

lemma zero_entries:
  "map original (fix_word_hyphenation tables zero_hyphenated) = [[1088, 45, 10, 1085, 1099, 1081]]
   \<and> map suggestion (fix_word_hyphenation tables zero_hyphenated) = [[1088, 1085, 1099, 1081]]"
proof -
  have e: "hyphenation_entry tables zero_hyphenated 2
      = \<lparr>etype = ''hyphenation_error'', original = [1088, 45, 10, 1085, 1099, 1081],
         suggestion = [1088, 1085, 1099, 1081], etext = [1088, 45, 10, 1085],
         description = hyphenation_description [1088, 45, 10, 1085, 1099, 1081]
           [1088, 1085, 1099, 1081],
         confidence = None, candidates = None\<rparr>"
    by (simp add: hyphenation_entry_def Let_def tables_def zero_word_start zero_word_end)
      (simp add: slice_def zero_hyphenated_def)
  show ?thesis
    by (simp add: fix_word_hyphenation_def zero_finditer e)
qed

lemma zero_step:
  "hyphenation_step tables ([], zero_hyphenated)
     = (fix_word_hyphenation tables zero_hyphenated, zero_joined)"
proof -
  from zero_entries obtain e where e: "fix_word_hyphenation tables zero_hyphenated = [e]"
    "original e = [1088, 45, 10, 1085, 1099, 1081]" "suggestion e = [1088, 1085, 1099, 1081]"
    by (auto simp: map_eq_Cons_conv)
  have "py_replace zero_hyphenated [1088, 45, 10, 1085, 1099, 1081] [1088, 1085, 1099, 1081]
      = zero_joined"
    by (simp add: py_replace_def zero_hyphenated_def zero_joined_def startswith_def)
  with e show ?thesis
    by (simp add: hyphenation_step_def apply_replace_all_def)
qed

lemma zero_ocr_original:
  "map original (check_ocr_errors tables zero_hyphenated) = [[1095, 48, 1088]]
   \<and> map suggestion (check_ocr_errors tables zero_hyphenated) = [[1095, 1054, 1088]]"
proof -
  have "runs isword_table zero_hyphenated = [[1095, 48, 1088], [1085, 1099, 1081]]"
    by (simp add: runs_def zero_hyphenated_def isword_table_def isalpha_table_def)
  then show ?thesis
    by (simp add: check_ocr_errors_def tables_def correct_word_def replacements_def
        ocr_entry_def py_replace_def startswith_def)
qed

lemma zero_ocr_joined:
  "map original (check_ocr_errors tables zero_joined) = [zero_joined]"
proof -
  have "runs isword_table zero_joined = [zero_joined]"
    by (simp add: runs_def zero_joined_def isword_table_def isalpha_table_def)
  then show ?thesis
    by (simp add: check_ocr_errors_def tables_def correct_word_def replacements_def
        ocr_entry_def py_replace_def startswith_def zero_joined_def)
qed

lemma zero_ocr_step:
  "ocr_step tables zero_hyphenated True (hyphenation_step tables ([], zero_hyphenated))
     = (fix_word_hyphenation tables zero_hyphenated @ check_ocr_errors tables zero_hyphenated,
        [1095, 1054, 1088, 1085, 1099, 1081])"
proof -
  from zero_ocr_original obtain e where e: "check_ocr_errors tables zero_hyphenated = [e]"
    "original e = [1095, 48, 1088]" "suggestion e = [1095, 1054, 1088]"
    by (auto simp: map_eq_Cons_conv)
  have "py_replace zero_joined [1095, 48, 1088] [1095, 1054, 1088]
      = [1095, 1054, 1088, 1085, 1099, 1081]"
    by (simp add: py_replace_def zero_joined_def startswith_def)
  with e show ?thesis
    by (simp add: zero_step ocr_step_def apply_replace_all_def)
qed

lemma zero_context:
  "check_context_errors tables bare_checker [1095, 1054, 1088, 1085, 1099, 1081] = []"
proof -
  have "\<forall>(w, c) \<in> set context_errors_table.
      \<not> py_in (map lower_table w) (map lower_table [1095, 1054, 1088, 1085, 1099, 1081])"
    by (simp add: context_errors_table_def lower_table_def startswith_def)
  then show ?thesis
    by (auto simp: check_context_errors_def bare_checker_def ErrorChecker_init_def tables_def)
qed

text \<open>
  C2 fails on the code at this input. The hyphenation step leaves the word in one
  piece, and a scan of that text would give one entry for the whole word; the
  entry that \<open>check_text\<close> records is for the first half of the word, a token of
  the text as it came in: \<open>check_text\<close> passes \<open>text\<close>, not \<open>corrected_text\<close>,
  to the confusable-character pass.
\<close>

theorem ocr_step_scans_original_text:
  "snd (hyphenation_step tables ([], zero_hyphenated)) = zero_joined
   \<and> map original (check_ocr_errors tables zero_joined) = [zero_joined]
   \<and> map original (errors (check_text tables bare_checker zero_hyphenated True True))
       = [[1088, 45, 10, 1085, 1099, 1081], [1095, 48, 1088]]"
proof -
  have b: "\<not> has_language_tool bare_checker" "\<not> has_spellchecker bare_checker"
    by (simp_all add: bare_checker_def ErrorChecker_init_def)
  have "errors (check_text tables bare_checker zero_hyphenated True True)
      = fix_word_hyphenation tables zero_hyphenated @ check_ocr_errors tables zero_hyphenated"
    by (simp add: check_text_def zero_ocr_step context_step_def zero_context grammar_step_def
        spelling_step_def make_result_def apply_replace_all_def b)
  with zero_entries zero_ocr_original show ?thesis
    by (simp add: zero_step zero_ocr_joined)
qed

subsection \<open>Failing capabilities\<close>

lemma spelling_loop_raise:
  "candidates_of sp w = None \<Longrightarrow> spelling_loop sp (ws1 @ w # ws2) = spelling_loop sp ws1"
  by (induction ws1) (auto split: option.splits list.splits)

lemma spelling_loop_no_raise:
  "\<forall>v \<in> set ws. candidates_of sp v \<noteq> None
     \<Longrightarrow> spelling_loop sp ws
         = concat (map (\<lambda>v. case candidates_of sp v of
                               Some (sugg # others) \<Rightarrow> [spelling_entry v (sugg # others) sugg]
                             | _ \<Rightarrow> []) ws)"
  by (induction ws) (auto split: option.splits list.splits)

lemma check_spelling_partial:
  assumes "has_spellchecker self" and "spell self = Some sp"
    and "unknown sp (findall_ru_words U ct) = Some (ws1 @ w # ws2)"
    and "candidates_of sp w = None" and "\<forall>v \<in> set ws1. candidates_of sp v \<noteq> None"
  shows "check_spelling U self ct
       = concat (map (\<lambda>v. case candidates_of sp v of
                             Some (sugg # others) \<Rightarrow> [spelling_entry v (sugg # others) sugg]
                           | _ \<Rightarrow> []) ws1)"
  using assms by (simp add: check_spelling_def spelling_loop_raise spelling_loop_no_raise)

lemma grammar_step_raise:
  "lt self = Some lt_check \<Longrightarrow> lt_check ct = None
     \<Longrightarrow> grammar_step self check_gram (errs, ct) = (errs, ct)"
  by (simp add: grammar_step_def check_grammar_def)

lemma check_spelling_disabled:
  "check_spelling U (self\<lparr>has_language_tool := False\<rparr>) ct = check_spelling U self ct"
  by (simp add: check_spelling_def)

lemma check_context_errors_disabled:
  "check_context_errors U (self\<lparr>has_language_tool := False\<rparr>) ct = check_context_errors U self ct"
  by (simp add: check_context_errors_def)

lemma check_text_grammar_raises:
  assumes "lt self = Some lt_check" and "\<forall>t. lt_check t = None"
  shows "check_text U self input check_gram check_ocr
       = check_text U (self\<lparr>has_language_tool := False\<rparr>) input check_gram check_ocr"
proof -
  obtain errs ct where s: "context_step U self (ocr_step U input check_ocr
      (hyphenation_step U ([], input))) = (errs, ct)"
    by (cases "context_step U self (ocr_step U input check_ocr (hyphenation_step U ([], input)))")
  have c: "context_step U (self\<lparr>has_language_tool := False\<rparr>) = context_step U self"
    by (simp add: context_step_def check_context_errors_disabled)
  have g: "grammar_step self check_gram (errs, ct) = (errs, ct)"
    using assms by (simp add: grammar_step_raise)
  have g': "grammar_step (self\<lparr>has_language_tool := False\<rparr>) check_gram (errs, ct) = (errs, ct)"
    by (simp add: grammar_step_def)
  have sp: "spelling_step U (self\<lparr>has_language_tool := False\<rparr>) check_gram (errs, ct)
      = spelling_step U self check_gram (errs, ct)"
    by (simp add: spelling_step_def check_spelling_disabled)
  show ?thesis
    by (simp add: check_text_def c s g g' sp)
qed

text \<open>
  C7 (amended). A capability that fails to load leaves its flag false, and the step
  of that pass then returns errors and text as they are, for every call. A call
  of the grammar check or of \<open>unknown\<close> that raises gives no entries and leaves
  the text as it is. A call of \<open>candidates\<close> that raises ends the loop over the
  unknown words: the spelling pass then returns the entries of the words before
  it, and the step appends them and applies them to the text. In no case does
  \<open>check_text\<close> fail: its result has \<open>success\<close> true, and with a grammar check
  that raises the result is the one of a checker without the grammar capability,
  so the spelling pass still runs.
\<close>

theorem capability_failures:
  "(load_lt ''ru'' = None \<longrightarrow>
      \<not> has_language_tool (ErrorChecker_init load_spell load_lt lang)
      \<and> grammar_step (ErrorChecker_init load_spell load_lt lang) check_gram (errs, ct)
          = (errs, ct))
   \<and> (load_spell lang = None \<longrightarrow>
      \<not> has_spellchecker (ErrorChecker_init load_spell load_lt lang)
      \<and> spelling_step U (ErrorChecker_init load_spell load_lt lang) check_gram (errs, ct)
          = (errs, ct))
   \<and> (lt self = Some lt_check \<longrightarrow> lt_check ct = None \<longrightarrow>
      grammar_step self check_gram (errs, ct) = (errs, ct))
   \<and> (spell self = Some sp \<longrightarrow> unknown sp (findall_ru_words U ct) = None \<longrightarrow>
      spelling_step U self check_gram (errs, ct) = (errs, ct))
   \<and> (candidates_of sp w = None \<longrightarrow>
      spelling_loop sp (ws1 @ w # ws2) = spelling_loop sp ws1)
   \<and> success (check_text U self input check_gram check_ocr)
   \<and> (lt self = Some lt_check \<longrightarrow> (\<forall>t. lt_check t = None) \<longrightarrow>
      check_text U self input check_gram check_ocr
        = check_text U (self\<lparr>has_language_tool := False\<rparr>) input check_gram check_ocr)
   \<and> (has_spellchecker self \<longrightarrow> spell self = Some sp \<longrightarrow>
      unknown sp (findall_ru_words U ct) = Some (ws1 @ w # ws2) \<longrightarrow>
      candidates_of sp w = None \<longrightarrow> (\<forall>v \<in> set ws1. candidates_of sp v \<noteq> None) \<longrightarrow>
      check_spelling U self ct
        = concat (map (\<lambda>v. case candidates_of sp v of
                              Some (sugg # others) \<Rightarrow> [spelling_entry v (sugg # others) sugg]
                            | _ \<Rightarrow> []) ws1)
      \<and> spelling_step U self True (errs, ct)
          = (errs @ check_spelling U self ct,
             fold (\<lambda>e t. py_replace1 t (original e) (suggestion e))
               (check_spelling U self ct) ct))"
proof (intro conjI impI)
  assume "load_lt ''ru'' = None"
  then show "\<not> has_language_tool (ErrorChecker_init load_spell load_lt lang)"
    and "grammar_step (ErrorChecker_init load_spell load_lt lang) check_gram (errs, ct)
          = (errs, ct)"
    by (simp_all add: ErrorChecker_init_def grammar_step_def)
next
  assume "load_spell lang = None"
  then show "\<not> has_spellchecker (ErrorChecker_init load_spell load_lt lang)"
    and "spelling_step U (ErrorChecker_init load_spell load_lt lang) check_gram (errs, ct)
          = (errs, ct)"
    by (simp_all add: ErrorChecker_init_def spelling_step_def)
next
  assume "lt self = Some lt_check" "lt_check ct = None"
  then show "grammar_step self check_gram (errs, ct) = (errs, ct)"
    by (rule grammar_step_raise)
next
  assume "spell self = Some sp" "unknown sp (findall_ru_words U ct) = None"
  then show "spelling_step U self check_gram (errs, ct) = (errs, ct)"
    by (simp add: spelling_step_def check_spelling_def apply_replace_first_def)
next
  assume "candidates_of sp w = None"
  then show "spelling_loop sp (ws1 @ w # ws2) = spelling_loop sp ws1"
    by (rule spelling_loop_raise)
next
  show "success (check_text U self input check_gram check_ocr)"
    by (simp add: check_text_def make_result_def split: prod.split)
next
  assume "lt self = Some lt_check" "\<forall>t. lt_check t = None"
  then show "check_text U self input check_gram check_ocr
        = check_text U (self\<lparr>has_language_tool := False\<rparr>) input check_gram check_ocr"
    by (rule check_text_grammar_raises)
next
  assume "has_spellchecker self" "spell self = Some sp"
    "unknown sp (findall_ru_words U ct) = Some (ws1 @ w # ws2)"
    "candidates_of sp w = None" "\<forall>v \<in> set ws1. candidates_of sp v \<noteq> None"
  then show "check_spelling U self ct
        = concat (map (\<lambda>v. case candidates_of sp v of
                              Some (sugg # others) \<Rightarrow> [spelling_entry v (sugg # others) sugg]
                            | _ \<Rightarrow> []) ws1)"
    by (rule check_spelling_partial)
next
  assume "has_spellchecker self"
  then show "spelling_step U self True (errs, ct)
          = (errs @ check_spelling U self ct,
             fold (\<lambda>e t. py_replace1 t (original e) (suggestion e))
               (check_spelling U self ct) ct)"
    by (simp add: spelling_step_def Let_def apply_replace_first_def)
qed

lemma raising_checker_text:
  "context_step tables raising_checker
     (ocr_step tables [1072, 32, 1073] True (hyphenation_step tables ([], [1072, 32, 1073])))
     = ([], [1072, 32, 1073])"
proof -
  have h: "hyphenation_step tables ([], [1072, 32, 1073]) = ([], [1072, 32, 1073])"
    by (simp add: hyphenation_step_def fix_word_hyphenation_def apply_replace_all_def)
  have "runs isword_table [1072, 32, 1073] = [[1072], [1073]]"
    by (simp add: runs_def isword_table_def isalpha_table_def)
  then have o: "check_ocr_errors tables [1072, 32, 1073] = []"
    by (simp add: check_ocr_errors_def tables_def correct_word_def replacements_def)
  have "\<forall>(w, c) \<in> set context_errors_table.
      \<not> py_in (map lower_table w) (map lower_table [1072, 32, 1073])"
    by (simp add: context_errors_table_def lower_table_def startswith_def)
  then have c: "check_context_errors tables raising_checker [1072, 32, 1073] = []"
    by (auto simp: check_context_errors_def raising_checker_def ErrorChecker_init_def tables_def)
  show ?thesis
    by (simp add: h ocr_step_def o context_step_def c apply_replace_all_def)
qed

theorem capability_failures_witness:
  "\<not> has_language_tool bare_checker \<and> \<not> has_spellchecker bare_checker
   \<and> grammar_step bare_checker True ([], [1072]) = ([], [1072])
   \<and> spelling_step tables bare_checker True ([], [1072]) = ([], [1072])
   \<and> lt raising_checker = Some raising_lt \<and> raising_lt [1072] = None
   \<and> grammar_step raising_checker True ([], [1072]) = ([], [1072])
   \<and> candidates_of partial_spell [1073] = None
   \<and> spelling_loop partial_spell ([[1072]] @ [1073] # [[1074]]) = spelling_loop partial_spell [[1072]]
   \<and> check_text tables raising_checker [1072] True True
       = check_text tables (raising_checker\<lparr>has_language_tool := False\<rparr>) [1072] True True
   \<and> check_spelling tables raising_checker [1072, 32, 1073]
       = [spelling_entry [1072] [[1074]] [1074]]
   \<and> errors (check_text tables raising_checker [1072, 32, 1073] True True)
       = [spelling_entry [1072] [[1074]] [1074]]
   \<and> corrected_text (check_text tables raising_checker [1072, 32, 1073] True True)
       = [1074, 32, 1073]"
proof -
  have l: "lt raising_checker = Some raising_lt"
    by (simp add: raising_checker_def ErrorChecker_init_def)
  have r: "\<forall>t. raising_lt t = None"
    by (simp add: raising_lt_def)
  have c: "candidates_of partial_spell [1073] = None"
    by (simp add: partial_spell_def)
  have hs: "has_spellchecker raising_checker" "spell raising_checker = Some partial_spell"
    by (simp_all add: raising_checker_def ErrorChecker_init_def)
  have u: "unknown partial_spell (findall_ru_words tables [1072, 32, 1073])
      = Some ([[1072]] @ [1073] # [])"
    by (simp add: partial_spell_def)
  have nr: "\<forall>v \<in> set [[1072]]. candidates_of partial_spell v \<noteq> None"
    by (simp add: partial_spell_def)
  note t = capability_failures [where load_lt = "\<lambda>lang. None" and load_spell = "\<lambda>lang. None"
      and lang = "''ru''" and check_gram = True and errs = "[]" and U = tables
      and self = raising_checker and lt_check = raising_lt
      and sp = partial_spell and w = "[1073]" and ?ws1.0 = "[[1072]]"
      and input = "[1072]" and check_ocr = True]
  note t1 = t [where ct = "[1072]" and ?ws2.0 = "[[1074]]"]
  note t2 = t [where ct = "[1072, 32, 1073]" and ?ws2.0 = "[]"]
  have a1: "\<not> has_language_tool bare_checker
      \<and> grammar_step bare_checker True ([], [1072]) = ([], [1072])"
    using t1 [THEN conjunct1] by (simp add: bare_checker_def)
  have a2: "\<not> has_spellchecker bare_checker
      \<and> spelling_step tables bare_checker True ([], [1072]) = ([], [1072])"
    using t1 [THEN conjunct2, THEN conjunct1] by (simp add: bare_checker_def)
  have a3: "grammar_step raising_checker True ([], [1072]) = ([], [1072])"
    using t1 [THEN conjunct2, THEN conjunct2, THEN conjunct1] l r by simp
  have a5: "spelling_loop partial_spell ([[1072]] @ [1073] # [[1074]])
      = spelling_loop partial_spell [[1072]]"
    using t1 [THEN conjunct2, THEN conjunct2, THEN conjunct2, THEN conjunct2, THEN conjunct1] c
    by (rule mp)
  have a7: "check_text tables raising_checker [1072] True True
       = check_text tables (raising_checker\<lparr>has_language_tool := False\<rparr>) [1072] True True"
    using t1 [THEN conjunct2, THEN conjunct2, THEN conjunct2, THEN conjunct2, THEN conjunct2,
        THEN conjunct2, THEN conjunct1] l r
    by blast
  have a8: "check_spelling tables raising_checker [1072, 32, 1073]
        = concat (map (\<lambda>v. case candidates_of partial_spell v of
                              Some (sugg # others) \<Rightarrow> [spelling_entry v (sugg # others) sugg]
                            | _ \<Rightarrow> []) [[1072]])
      \<and> spelling_step tables raising_checker True ([], [1072, 32, 1073])
          = ([] @ check_spelling tables raising_checker [1072, 32, 1073],
             fold (\<lambda>e t. py_replace1 t (original e) (suggestion e))
               (check_spelling tables raising_checker [1072, 32, 1073]) [1072, 32, 1073])"
    using t2 [THEN conjunct2, THEN conjunct2, THEN conjunct2, THEN conjunct2, THEN conjunct2,
        THEN conjunct2, THEN conjunct2] hs u c nr
    by blast
  then have s1: "check_spelling tables raising_checker [1072, 32, 1073]
      = [spelling_entry [1072] [[1074]] [1074]]"
    by (simp add: partial_spell_def)
  with a8 have s2: "spelling_step tables raising_checker True ([], [1072, 32, 1073])
      = ([spelling_entry [1072] [[1074]] [1074]], [1074, 32, 1073])"
    by (simp add: spelling_entry_def py_replace1_def startswith_def)
  have g: "grammar_step raising_checker True ([], [1072, 32, 1073]) = ([], [1072, 32, 1073])"
    using l r by (simp add: grammar_step_raise)
  have ct: "check_text tables raising_checker [1072, 32, 1073] True True
      = make_result [1072, 32, 1073] ([spelling_entry [1072] [[1074]] [1074]], [1074, 32, 1073])"
    by (simp add: check_text_def raising_checker_text g s2)
  from a1 a2 a3 a5 a7 l r c s1 show ?thesis
    by (simp add: ct make_result_def)
qed

text \<open>
  The claim C7 as stated fails in one case: \<open>candidates\<close> raises on the second
  unknown word, and the spelling pass still returns the entry of the first.
\<close>

theorem check_spelling_partial_counterexample:
  "candidates_of partial_spell [1073] = None
   \<and> unknown partial_spell (findall_ru_words tables [1072, 32, 1073]) = Some [[1072], [1073]]
   \<and> map original (check_spelling tables raising_checker [1072, 32, 1073]) = [[1072]]
   \<and> map suggestion (check_spelling tables raising_checker [1072, 32, 1073]) = [[1074]]"
  by (simp add: check_spelling_def raising_checker_def ErrorChecker_init_def partial_spell_def
      spelling_entry_def)

subsection \<open>Entries and gate of the grammar pass\<close>

lemma grammar_loop_entry_spans:
  "grammar_loop text ms
     = map (\<lambda>m. grammar_entry (slice text (m_offset m) (m_offset m + m_length m))
                   (hd (m_replacements m)))
         (filter entry_span ms)"
  by (induction ms) (auto simp: entry_span_def split: list.splits)

lemma replace_first_ne_first:
  "old \<noteq> [] \<Longrightarrow> \<forall>k < length a. \<not> startswith (drop k (a @ old @ b)) old
     \<Longrightarrow> replace_first_ne old new (a @ old @ b) = a @ new @ b"
proof (induction a)
  case Nil
  then obtain c cs where ccs: "old @ b = c # cs"
    by (cases old) auto
  have "startswith (c # cs) old" "drop (length old) (c # cs) = b"
    unfolding ccs [symmetric] by (simp_all add: startswith_def)
  then have "replace_first_ne old new (c # cs) = new @ b"
    by simp
  then show ?case by (simp add: ccs)
next
  case (Cons x a)
  from Cons.prems(2) have "\<not> startswith (x # a @ old @ b) old"
    by (metis append_Cons drop0 length_greater_0_conv list.discI)
  moreover have "\<forall>k < length a. \<not> startswith (drop k (a @ old @ b)) old"
  proof (intro allI impI)
    fix k assume "k < length a"
    then have "Suc k < length (x # a)" by simp
    with Cons.prems(2) have "\<not> startswith (drop (Suc k) ((x # a) @ old @ b)) old"
      by blast
    then show "\<not> startswith (drop k (a @ old @ b)) old" by simp
  qed
  ultimately show ?case using Cons.IH Cons.prems(1) by simp
qed

text \<open>
  C5 (amended). Of the spans that the grammar checker flags, those of category
  \<open>TYPOS\<close> or \<open>GRAMMAR\<close> that carry a replacement become one entry each, in
  order, with confidence 0.8 and the first replacement as suggestion; a span of
  these categories without a replacement gives no entry. The grammar step appends
  these entries and applies each through the gate: the replacement is made only
  when the confidence of the entry is above 0.8, and then the first occurrence of
  the original alone is replaced.
\<close>

theorem grammar_entries_and_gate:
  assumes "has_language_tool self" and "lt self = Some lt_check"
    and "lt_check ct = Some matches"
  shows "check_grammar self ct
       = map (\<lambda>m. grammar_entry (slice ct (m_offset m) (m_offset m + m_length m))
                     (hd (m_replacements m)))
           (filter entry_span matches)
     \<and> grammar_step self True (errs, ct)
         = (errs @ check_grammar self ct, fold apply_grammar_error (check_grammar self ct) ct)
     \<and> map confidence (check_grammar self ct)
         = replicate (length (filter entry_span matches)) (Some (8 / 10))
     \<and> (8 / 10 < c \<longrightarrow>
          apply_grammar_error (e\<lparr>confidence := Some c\<rparr>) t
            = py_replace1 t (original e) (suggestion e))
     \<and> (c \<le> 8 / 10 \<longrightarrow> apply_grammar_error (e\<lparr>confidence := Some c\<rparr>) t = t)
     \<and> apply_grammar_error (e\<lparr>confidence := None\<rparr>) t = t
     \<and> (old \<noteq> [] \<longrightarrow> (\<forall>k < length a. \<not> startswith (drop k (a @ old @ b)) old) \<longrightarrow>
          py_replace1 (a @ old @ b) old new = a @ new @ b)"
proof -
  have g: "check_grammar self ct
       = map (\<lambda>m. grammar_entry (slice ct (m_offset m) (m_offset m + m_length m))
                     (hd (m_replacements m)))
           (filter entry_span matches)"
    using assms by (simp add: check_grammar_def grammar_loop_entry_spans)
  have s: "grammar_step self True (errs, ct)
         = (errs @ check_grammar self ct, fold apply_grammar_error (check_grammar self ct) ct)"
    using assms(1) by (simp add: grammar_step_def Let_def)
  have "map confidence (check_grammar self ct)
         = replicate (length (filter entry_span matches)) (Some (8 / 10))"
    unfolding g by (simp add: grammar_entry_def comp_def map_replicate_const)
  with g s show ?thesis
    by (auto simp: apply_grammar_error_def py_replace1_def replace_first_ne_first)
qed

theorem grammar_entries_and_gate_witness:
  "has_language_tool grammar_only_checker \<and> lt grammar_only_checker = Some typo_lt
   \<and> check_grammar grammar_only_checker [1073, 1073] = [grammar_entry [1073] [1072]]
   \<and> grammar_step grammar_only_checker True ([], [1073, 1073])
       = ([grammar_entry [1073] [1072]], [1073, 1073])
   \<and> confidence (grammar_entry [1073] [1072]) = Some (8 / 10)
   \<and> apply_grammar_error (grammar_entry [1073] [1072]\<lparr>confidence := Some (9 / 10)\<rparr>)
        [1073, 1073] = [1072, 1073]
   \<and> apply_grammar_error (grammar_entry [1073] [1072]\<lparr>confidence := Some (8 / 10)\<rparr>)
        [1073, 1073] = [1073, 1073]"
proof -
  have h1: "has_language_tool grammar_only_checker"
    by (simp add: grammar_only_checker_def ErrorChecker_init_def)
  have h2: "lt grammar_only_checker = Some typo_lt"
    by (simp add: grammar_only_checker_def ErrorChecker_init_def)
  have h3: "typo_lt [1073, 1073]
      = Some [\<lparr>m_category = ''TYPOS'', m_replacements = [[1072]], m_offset = 0, m_length = 1\<rparr>]"
    by (simp add: typo_lt_def)
  note t = grammar_entries_and_gate [OF h1 h2 h3, where e = "grammar_entry [1073] [1072]"
      and t = "[1073, 1073]" and errs = "[]"]
  have g: "check_grammar grammar_only_checker [1073, 1073] = [grammar_entry [1073] [1072]]"
    using t [THEN conjunct1] by (simp add: entry_span_def slice_def)
  have s: "grammar_step grammar_only_checker True ([], [1073, 1073])
       = ([grammar_entry [1073] [1072]], [1073, 1073])"
    using t [THEN conjunct2, THEN conjunct1] g
    by (simp add: apply_grammar_error_def grammar_entry_def)
  have c9: "apply_grammar_error (grammar_entry [1073] [1072]\<lparr>confidence := Some (9 / 10)\<rparr>)
        [1073, 1073] = [1072, 1073]"
    using t [where c = "9 / 10", THEN conjunct2, THEN conjunct2, THEN conjunct2, THEN conjunct1]
    by (simp add: grammar_entry_def py_replace1_def startswith_def)
  have c8: "apply_grammar_error (grammar_entry [1073] [1072]\<lparr>confidence := Some (8 / 10)\<rparr>)
        [1073, 1073] = [1073, 1073]"
    using t [where c = "8 / 10", THEN conjunct2, THEN conjunct2, THEN conjunct2, THEN conjunct2,
        THEN conjunct1]
    by simp
  from h1 h2 g s c9 c8 show ?thesis
    by (simp add: grammar_entry_def)
qed

text \<open>
  The claim C5 as stated fails in its first part: a span that is kept in the
  words of the specification, but has no replacement, gives no entry.
\<close>

theorem grammar_span_without_replacement_counterexample:
  "no_replacement_lt [1073] = Some [bare_typo_span]
   \<and> spec_kept_span bare_typo_span
   \<and> has_language_tool no_replacement_checker
   \<and> check_grammar no_replacement_checker [1073] = []
   \<and> grammar_step no_replacement_checker True ([], [1073]) = ([], [1073])"
  by (simp add: no_replacement_lt_def bare_typo_span_def spec_kept_span_def
      no_replacement_checker_def ErrorChecker_init_def check_grammar_def grammar_step_def)

subsection \<open>Context phrases\<close>

lemma same_up_to_case_match:
  "ch = p \<or> (iscased U p \<and> lower U ch = lower U p) \<Longrightarrow> ignorecase_match U p ch"
  by (auto simp: ignorecase_match_def)

lemma same_up_to_case_prefix:
  "same_up_to_case U w m \<Longrightarrow> ignorecase_prefix U w (m @ b)"
proof -
  assume s: "same_up_to_case U w m"
  then have len: "length w = length m"
    by (simp add: same_up_to_case_def list_all2_lengthD)
  from s have "list_all2 (ignorecase_match U) w m"
    unfolding same_up_to_case_def
    by (rule list_all2_mono) (rule same_up_to_case_match)
  with len show ?thesis
    by (simp add: ignorecase_prefix_def)
qed

lemma same_up_to_case_lower:
  "same_up_to_case U w m \<Longrightarrow> map (lower U) m = map (lower U) w"
  unfolding same_up_to_case_def
  by (induction w m rule: list_all2_induct) auto

lemma match_same:
  "ignorecase_match U p ch \<Longrightarrow> ignorecase_match U q ch \<Longrightarrow> can_match_same U p q"
  by (auto simp: ignorecase_match_def can_match_same_def list_ex_iff split: if_splits)

lemma no_overlap:
  assumes b: "borderless U w"
    and p0: "ignorecase_prefix U w s"
    and pk: "ignorecase_prefix U w (drop k s)"
    and k: "0 < k" "k < length w"
  shows False
proof -
  let ?n = "length w"
  from b have "\<forall>k \<in> {Suc 0..<?n}. \<exists>i \<in> {0..<?n - k}. \<not> can_match_same U (w ! (k + i)) (w ! i)"
    by (simp add: borderless_def list_all_iff list_ex_iff)
  moreover from k have "k \<in> {Suc 0..<?n}" by simp
  ultimately have "\<exists>i \<in> {0..<?n - k}. \<not> can_match_same U (w ! (k + i)) (w ! i)"
    by (rule bspec)
  then obtain i where i: "i < ?n - k" and no: "\<not> can_match_same U (w ! (k + i)) (w ! i)"
    by auto
  from p0 have l0: "?n \<le> length s" and m0: "list_all2 (ignorecase_match U) w (take ?n s)"
    by (simp_all add: ignorecase_prefix_def)
  from pk have lk: "?n \<le> length (drop k s)"
    and mk: "list_all2 (ignorecase_match U) w (take ?n (drop k s))"
    by (simp_all add: ignorecase_prefix_def)
  from i have ki: "k + i < ?n" by simp
  from list_all2_nthD [OF m0 ki] ki have a: "ignorecase_match U (w ! (k + i)) (s ! (k + i))"
    by simp
  from i have "i < ?n" by simp
  from list_all2_nthD [OF mk this] i lk have "ignorecase_match U (w ! i) (s ! (k + i))"
    by simp
  with a have "can_match_same U (w ! (k + i)) (w ! i)"
    by (rule match_same)
  with no show False ..
qed

lemma phrase_finditer_occurrence:
  "borderless U (p1 # ps) \<Longrightarrow> ignorecase_prefix U (p1 # ps) (drop k s)
     \<Longrightarrow> take (length (p1 # ps)) (drop k s) \<in> set (phrase_finditer U p1 ps s)"
proof (induction U p1 ps s arbitrary: k rule: phrase_finditer.induct)
  case (1 U p1 ps)
  then show ?case by (simp add: ignorecase_prefix_def)
next
  case (2 U p1 ps c cs)
  let ?w = "p1 # ps"
  let ?n = "length ?w"
  show ?case
  proof (cases "ignorecase_prefix U ?w (c # cs)")
    case True
    show ?thesis
    proof (cases "k = 0")
      case k0: True
      with True show ?thesis by simp
    next
      case False
      have "\<not> k < ?n"
      proof
        assume "k < ?n"
        with no_overlap [OF "2.prems"(1) True "2.prems"(2)] False show False
          by simp
      qed
      then have kn: "?n \<le> k" by simp
      have d: "drop (k - ?n) (drop (length ps) cs) = drop k (c # cs)"
      proof -
        have "drop (length ps) cs = drop ?n (c # cs)" by simp
        then have "drop (k - ?n) (drop (length ps) cs) = drop (k - ?n + ?n) (c # cs)"
          by (simp only: drop_drop)
        with kn show ?thesis by simp
      qed
      with "2.prems"(2) have "ignorecase_prefix U ?w (drop (k - ?n) (drop (length ps) cs))"
        by simp
      from "2.IH"(1) [OF True "2.prems"(1) this] d
      have "take ?n (drop k (c # cs)) \<in> set (phrase_finditer U p1 ps (drop (length ps) cs))"
        by simp
      with True show ?thesis by simp
    qed
  next
    case False
    have "k \<noteq> 0"
    proof
      assume "k = 0"
      with "2.prems"(2) False show False by simp
    qed
    then obtain j where j: "k = Suc j" by (cases k) auto
    with "2.prems"(2) have "ignorecase_prefix U ?w (drop j cs)" by simp
    from "2.IH"(2) [OF False "2.prems"(1) this] j False show ?thesis by simp
  qed
qed

lemma py_in_drop: "k \<le> length s \<Longrightarrow> startswith (drop k s) sub \<Longrightarrow> py_in sub s"
proof (induction s arbitrary: k)
  case Nil
  then show ?case by (simp add: startswith_def)
next
  case (Cons c cs)
  show ?case
  proof (cases k)
    case 0
    with Cons.prems show ?thesis by simp
  next
    case (Suc j)
    with Cons.prems have "j \<le> length cs" "startswith (drop j cs) sub" by simp_all
    with Cons.IH show ?thesis by simp
  qed
qed

lemma check_context_errors_flags:
  assumes w: "(wrong, correct) \<in> set (context_errors self)" "wrong \<noteq> []"
    and b: "borderless U wrong"
    and t: "text = a @ m @ b'" and m: "same_up_to_case U wrong m"
  shows "context_entry correct m \<in> set (check_context_errors U self text)"
proof -
  obtain p1 ps where p: "wrong = p1 # ps"
    using w(2) by (cases wrong) auto
  have len: "length wrong = length m"
    using m by (simp add: same_up_to_case_def list_all2_lengthD)
  have d: "drop (length a) text = m @ b'"
    using t by simp
  have "ignorecase_prefix U wrong (drop (length a) text)"
    unfolding d using m by (rule same_up_to_case_prefix)
  then have "take (length wrong) (drop (length a) text) \<in> set (phrase_finditer U p1 ps text)"
    using phrase_finditer_occurrence [of U p1 ps "length a" "text"] b p by simp
  then have f: "m \<in> set (finditer_ignorecase U wrong text)"
    using d len by (simp add: finditer_ignorecase_def p)
  have "startswith (drop (length a) (map (lower U) text)) (map (lower U) wrong)"
    using t len same_up_to_case_lower [OF m] by (simp add: startswith_def)
  then have g: "py_in (map (lower U) wrong) (map (lower U) text)"
    using py_in_drop [of "length a" "map (lower U) text" "map (lower U) wrong"] t by simp
  from w(1) f g show ?thesis
    by (force simp: check_context_errors_def)
qed

lemmas table_simps =
  tables_def lower_table_def iscased_table_def ignorecase_fixes_table_def
  ignorecase_match_def ignorecase_prefix_def finditer_ignorecase_def startswith_def

lemma bare_context: "context_errors bare_checker = context_errors_table"
  by (simp add: bare_checker_def ErrorChecker_init_def)

lemma v_nes_context:
  "check_context_errors tables bare_checker v_nes = [context_entry v_nee v_nes]"
  by (simp add: check_context_errors_def bare_context context_errors_table_def v_nes_def
      v_nee_def table_simps)

lemma v_nes_upper_context:
  "check_context_errors tables bare_checker v_nes_upper = [context_entry v_nee v_nes_upper]"
  by (simp add: check_context_errors_def bare_context context_errors_table_def v_nes_upper_def
      v_nee_def table_simps)

lemma vve_ve_context:
  "check_context_errors tables bare_checker vve_ve
     = [context_entry [1077, 1105] [1074, 1077], context_entry [1077, 1105] [1074, 1077]]"
  by (simp add: check_context_errors_def bare_context context_errors_table_def vve_ve_def
      table_simps)

lemma phrase_finditer_sound:
  "m \<in> set (phrase_finditer U p1 ps s) \<Longrightarrow> list_all2 (ignorecase_match U) (p1 # ps) m"
proof (induction U p1 ps s rule: phrase_finditer.induct)
  case (1 U p1 ps)
  then show ?case by simp
next
  case (2 U p1 ps c cs)
  show ?case
  proof (cases "ignorecase_prefix U (p1 # ps) (c # cs)")
    case True
    with "2.prems" have "m = take (length (p1 # ps)) (c # cs)
        \<or> m \<in> set (phrase_finditer U p1 ps (drop (length ps) cs))"
      by simp
    then show ?thesis
    proof
      assume "m = take (length (p1 # ps)) (c # cs)"
      with True show ?thesis by (simp add: ignorecase_prefix_def)
    next
      assume "m \<in> set (phrase_finditer U p1 ps (drop (length ps) cs))"
      with "2.IH"(1) [OF True] show ?thesis by simp
    qed
  next
    case False
    with "2.IH"(2) [OF False] "2.prems" show ?thesis by simp
  qed
qed

lemma check_context_errors_sound:
  "e \<in> set (check_context_errors U self text)
     \<Longrightarrow> \<exists>(w, c) \<in> set (context_errors self).
           suggestion e = c \<and> list_all2 (ignorecase_match U) w (original e)"
proof -
  assume "e \<in> set (check_context_errors U self text)"
  then obtain w c m where wc: "(w, c) \<in> set (context_errors self)"
    and m: "m \<in> set (finditer_ignorecase U w text)" and e: "e = context_entry c m"
    by (auto simp: check_context_errors_def split: if_splits)
  have "list_all2 (ignorecase_match U) w m"
  proof (cases w)
    case Nil
    with m show ?thesis by (auto simp: finditer_ignorecase_def)
  next
    case (Cons p1 ps)
    with m show ?thesis by (simp add: finditer_ignorecase_def phrase_finditer_sound)
  qed
  with wc e show ?thesis
    by (auto simp: context_entry_def)
qed

lemma check_text_context_only:
  assumes "hyphen_finditer 0 input = []" and "check_ocr_errors U input = []"
    and "\<not> has_language_tool self" and "\<not> has_spellchecker self"
  shows "check_text U self input check_gram True
       = make_result input (check_context_errors U self input,
           apply_replace_all (check_context_errors U self input) input)"
  using assms
  by (simp add: check_text_def hyphenation_step_def fix_word_hyphenation_def ocr_step_def
      context_step_def grammar_step_def spelling_step_def apply_replace_all_def Let_def)

lemma bare_flags: "\<not> has_language_tool bare_checker" "\<not> has_spellchecker bare_checker"
  by (simp_all add: bare_checker_def ErrorChecker_init_def)

lemma v_nes_check_text:
  "check_text tables bare_checker v_nes True True
     = make_result v_nes ([context_entry v_nee v_nes], v_nee)"
proof -
  have h: "hyphen_finditer 0 v_nes = []"
    by (simp add: v_nes_def)
  have "runs isword_table v_nes = [[1074], [1085, 1077, 1089]]"
    by (simp add: runs_def v_nes_def isword_table_def isalpha_table_def)
  then have o: "check_ocr_errors tables v_nes = []"
    by (simp add: check_ocr_errors_def tables_def correct_word_def replacements_def)
  have r: "py_replace v_nes v_nes v_nee = v_nee"
    by (simp add: py_replace_def v_nes_def v_nee_def startswith_def)
  show ?thesis
    by (simp add: check_text_context_only [OF h o bare_flags] v_nes_context
        apply_replace_all_def context_entry_def r)
qed

lemma v_nes_upper_check_text:
  "check_text tables bare_checker v_nes_upper True True
     = make_result v_nes_upper ([context_entry v_nee v_nes_upper], v_nee)"
proof -
  have h: "hyphen_finditer 0 v_nes_upper = []"
    by (simp add: v_nes_upper_def)
  have "runs isword_table v_nes_upper = [[1042], [1053, 1045, 1057]]"
    by (simp add: runs_def v_nes_upper_def isword_table_def isalpha_table_def)
  then have o: "check_ocr_errors tables v_nes_upper = []"
    by (simp add: check_ocr_errors_def tables_def correct_word_def replacements_def)
  have r: "py_replace v_nes_upper v_nes_upper v_nee = v_nee"
    by (simp add: py_replace_def v_nes_upper_def v_nee_def startswith_def)
  show ?thesis
    by (simp add: check_text_context_only [OF h o bare_flags] v_nes_upper_context
        apply_replace_all_def context_entry_def r)
qed

lemma vve_ve_check_text:
  "corrected_text (check_text tables bare_checker vve_ve True True)
     = [1077, 1105, 1105, 32, 1077, 1105]"
proof -
  have h: "hyphen_finditer 0 vve_ve = []"
    by (simp add: vve_ve_def)
  have "runs isword_table vve_ve = [[1074, 1074, 1077], [1074, 1077]]"
    by (simp add: runs_def vve_ve_def isword_table_def isalpha_table_def)
  then have o: "check_ocr_errors tables vve_ve = []"
    by (simp add: check_ocr_errors_def tables_def correct_word_def replacements_def)
  have r1: "py_replace vve_ve [1074, 1077] [1077, 1105] = [1074, 1077, 1105, 32, 1077, 1105]"
    by (simp add: py_replace_def vve_ve_def startswith_def)
  have r2: "py_replace [1074, 1077, 1105, 32, 1077, 1105] [1074, 1077] [1077, 1105]
      = ([1077, 1105, 1105, 32, 1077, 1105] :: ustring)"
    by (simp add: py_replace_def startswith_def)
  show ?thesis
    by (simp add: check_text_context_only [OF h o bare_flags] vve_ve_context
        apply_replace_all_def context_entry_def make_result_def r1 r2)
qed

lemma table_borderless:
  "list_all (\<lambda>(w, c). w \<noteq> [] \<and> borderless tables w) context_errors_table"
  by (simp add: context_errors_table_def borderless_def upt_rec can_match_same_def tables_def
      lower_table_def iscased_table_def ignorecase_fixes_table_def)

text \<open>
  C6. Every occurrence of a phrase of the table, in whatever letter case, gives an
  entry whose original is the occurrence as it stands in the text and whose
  suggestion is the correct phrase of the table; and every entry has the correct
  phrase of a phrase that its original matches without regard to case. The phrase
  is taken to be one of which no two matches overlap, which holds of every phrase
  of the table. The context step replaces, for one entry after the other, every
  occurrence of the original in the text by the suggestion. The phrase of the
  example is flagged and replaced by the same correct phrase in lower case and in
  upper case; and in the last example the two replacements of every occurrence
  show in the result.
\<close>

theorem context_errors_case_insensitive:
  assumes "(wrong, correct) \<in> set (context_errors self)" and "wrong \<noteq> []"
    and "borderless U wrong"
    and "text = a @ m @ b" and "same_up_to_case U wrong m"
  shows "(\<exists>e \<in> set (check_context_errors U self text).
            e = context_entry correct m \<and> original e = m \<and> suggestion e = correct
            \<and> etype e = ''context_error'')
     \<and> (\<forall>e \<in> set (check_context_errors U self text).
            \<exists>(w, c) \<in> set (context_errors self).
              suggestion e = c \<and> list_all2 (ignorecase_match U) w (original e))
     \<and> context_step U self (errs, text)
         = (errs @ check_context_errors U self text,
            fold (\<lambda>e t. py_replace t (original e) (suggestion e))
              (check_context_errors U self text) text)
     \<and> (old \<noteq> [] \<longrightarrow> (\<forall>k < length a'. \<not> startswith (drop k (a' @ old @ b')) old) \<longrightarrow>
          py_replace (a' @ old @ b') old new = a' @ new @ py_replace b' old new)
     \<and> list_all (\<lambda>(w, c). w \<noteq> [] \<and> borderless tables w) context_errors_table
     \<and> errors (check_text tables bare_checker v_nes True True) = [context_entry v_nee v_nes]
     \<and> corrected_text (check_text tables bare_checker v_nes True True) = v_nee
     \<and> errors (check_text tables bare_checker v_nes_upper True True)
         = [context_entry v_nee v_nes_upper]
     \<and> corrected_text (check_text tables bare_checker v_nes_upper True True) = v_nee
     \<and> corrected_text (check_text tables bare_checker vve_ve True True)
         = [1077, 1105, 1105, 32, 1077, 1105]"
proof (intro conjI ballI impI)
  have "context_entry correct m \<in> set (check_context_errors U self text)"
    using assms by (rule check_context_errors_flags)
  then show "\<exists>e \<in> set (check_context_errors U self text).
            e = context_entry correct m \<and> original e = m \<and> suggestion e = correct
            \<and> etype e = ''context_error''"
    by (auto simp: context_entry_def)
next
  fix e
  assume "e \<in> set (check_context_errors U self text)"
  then show "\<exists>(w, c) \<in> set (context_errors self).
              suggestion e = c \<and> list_all2 (ignorecase_match U) w (original e)"
    by (rule check_context_errors_sound)
next
  show "context_step U self (errs, text)
         = (errs @ check_context_errors U self text,
            fold (\<lambda>e t. py_replace t (original e) (suggestion e))
              (check_context_errors U self text) text)"
    by (simp add: context_step_def Let_def apply_replace_all_def)
next
  assume "old \<noteq> []" "\<forall>k < length a'. \<not> startswith (drop k (a' @ old @ b')) old"
  then show "py_replace (a' @ old @ b') old new = a' @ new @ py_replace b' old new"
    by (rule py_replace_all)
next
  show "list_all (\<lambda>(w, c). w \<noteq> [] \<and> borderless tables w) context_errors_table"
    by (rule table_borderless)
next
  show "errors (check_text tables bare_checker v_nes True True) = [context_entry v_nee v_nes]"
    and "corrected_text (check_text tables bare_checker v_nes True True) = v_nee"
    by (simp_all add: v_nes_check_text make_result_def)
next
  show "errors (check_text tables bare_checker v_nes_upper True True)
         = [context_entry v_nee v_nes_upper]"
    and "corrected_text (check_text tables bare_checker v_nes_upper True True) = v_nee"
    by (simp_all add: v_nes_upper_check_text make_result_def)
next
  show "corrected_text (check_text tables bare_checker vve_ve True True)
         = [1077, 1105, 1105, 32, 1077, 1105]"
    by (rule vve_ve_check_text)
qed

theorem context_errors_case_insensitive_witness:
  "(v_nes, v_nee) \<in> set (context_errors bare_checker) \<and> v_nes \<noteq> []
   \<and> borderless tables v_nes \<and> v_nes_upper = [] @ v_nes_upper @ []
   \<and> same_up_to_case tables v_nes v_nes_upper
   \<and> (\<exists>e \<in> set (check_context_errors tables bare_checker v_nes_upper).
          original e = v_nes_upper \<and> suggestion e = v_nee)"
proof -
  have h1: "(v_nes, v_nee) \<in> set (context_errors bare_checker)"
    by (simp add: bare_context context_errors_table_def v_nes_def v_nee_def)
  have h2: "v_nes \<noteq> []"
    by (simp add: v_nes_def)
  have h3: "borderless tables v_nes"
    using table_borderless by (simp add: context_errors_table_def v_nes_def)
  have h4: "v_nes_upper = [] @ v_nes_upper @ []"
    by simp
  have h5: "same_up_to_case tables v_nes v_nes_upper"
    by (simp add: same_up_to_case_def v_nes_def v_nes_upper_def tables_def lower_table_def
        iscased_table_def)
  from context_errors_case_insensitive [OF h1 h2 h3 h4 h5, of "[]" "[]" "[]" "[]" "[]",
      THEN conjunct1]
  have "\<exists>e \<in> set (check_context_errors tables bare_checker v_nes_upper).
          original e = v_nes_upper \<and> suggestion e = v_nee"
    by blast
  with h1 h2 h3 h4 h5 show ?thesis
    by (intro conjI)
qed

end
